theory Spec2Isabelle
  imports Main
begin

section \<open>The parser worker of the crawling pipeline\<close>

text \<open>
  The worker loop \<^verbatim>\<open>Parser.worker_exec\<close> (icrawler/parser.py) talks to five
  collaborators that are not part of the function: the signal registry, its input queue,
  the transport session, the user's \<^verbatim>\<open>parse\<close> callback and the two push methods
  \<^verbatim>\<open>output\<close> and \<^verbatim>\<open>input\<close> of the pool. They are parameters of the model
  (the record \<open>env\<close>). Every call the worker makes is appended, with the answer it got, to
  a chronological history of events; an answer of a collaborator may depend on the whole
  history so far, which covers every behaviour other threads can show to this worker.
  The calls of the logger, of \<^verbatim>\<open>time.sleep\<close>, of \<^verbatim>\<open>self.signal.get\<close> and of
  \<^verbatim>\<open>self.in_queue.task_done\<close> are taken not to raise (the worker calls
  \<^verbatim>\<open>task_done\<close> at most once for each item it got); every other call may raise.
\<close>

subsection \<open>Data\<close>

type_synonym url = string
type_synonym response = string
type_synonym task = "(string \<times> string) list"

text \<open>
  Python exceptions, as far as the handlers of the loop tell them apart:
  \<^verbatim>\<open>queue.Full\<close>, \<^verbatim>\<open>queue.Empty\<close>, any other instance of \<^verbatim>\<open>Exception\<close>
  (by class name), and an exception that is not an instance of \<^verbatim>\<open>Exception\<close>
  (\<^verbatim>\<open>SystemExit\<close>, \<^verbatim>\<open>KeyboardInterrupt\<close>).
\<close>

datatype exn = QueueFull | QueueEmpty | Exception string | BaseException string

fun is_Exception :: "exn \<Rightarrow> bool" where
  "is_Exception (BaseException n) = False"
| "is_Exception e = True"

text \<open>
  What the callback yields: a \<^verbatim>\<open>dict\<close>, a \<^verbatim>\<open>str\<close>, or an object of any other
  type (given by its printed form).
\<close>

datatype item = Dict task | Str string | Other string

text \<open>The log records of the loop, one constructor per logging call (level and line).\<close>

datatype logrec =
    Info_ReachMax
  | Info_NoMoreUrls
  | Info_Waiting
  | Error_Dequeue
  | Debug_StartFetch url
  | Error_Fetch url exn int
  | Info_Parsing url
  | Error_Put item url
  | Info_ThreadExit

datatype event =
    SignalGet string bool
  | QueueGet nat "exn + url"
  | SessionGet url nat string "exn + response"
  | Output task nat "exn option"
  | Input string nat "exn option"
  | Sleep nat
  | TaskDone
  | Log logrec

type_synonym history = "event list"

record env =
  signal_get :: "history \<Rightarrow> string \<Rightarrow> bool"
  in_queue_get :: "history \<Rightarrow> nat \<Rightarrow> exn + url"
  urlsplit :: "url \<Rightarrow> exn + string \<times> string"
  session_get :: "history \<Rightarrow> url \<Rightarrow> nat \<Rightarrow> string \<Rightarrow> exn + response"
  parse :: "history \<Rightarrow> response \<Rightarrow> item list \<times> exn option"
  output_item :: "history \<Rightarrow> task \<Rightarrow> nat \<Rightarrow> exn option"
  input_item :: "history \<Rightarrow> string \<Rightarrow> nat \<Rightarrow> exn option"

text \<open>
  \<open>signal_get env h name\<close> is the truth value of \<^verbatim>\<open>self.signal.get(name)\<close> called
  after history \<open>h\<close>; \<open>in_queue_get env h t\<close> is the result of
  \<^verbatim>\<open>self.in_queue.get(timeout=t)\<close>, \<open>Inl\<close> the exception raised; \<open>urlsplit\<close> returns
  scheme and netloc or raises; \<open>session_get env h url t referer\<close> is
  \<^verbatim>\<open>self.session.get(url, timeout=t, headers={"Referer": referer})\<close>;
  \<open>parse env h response\<close> gives the items the generator yields and how it ends
  (\<open>None\<close>: it is exhausted, \<open>Some e\<close>: it raises \<open>e\<close> when asked for the next item; a
  callback that raises at once yields no item); \<open>output_item\<close> and \<open>input_item\<close> are
  \<^verbatim>\<open>self.output(task, timeout)\<close> and \<^verbatim>\<open>self.input(task, timeout)\<close>: \<open>None\<close>
  when the push succeeded and the exception otherwise.
\<close>

datatype exit = QuotaExit | SourceExhausted | Raised exn

subsection \<open>The loops\<close>

text \<open>Lines 96--103, the body of the inner \<^verbatim>\<open>try\<close>: which push method gets the item.\<close>

definition put_item :: "env \<Rightarrow> item \<Rightarrow> history \<Rightarrow> exn option \<times> history" where
  "put_item env task h =
     (case task of
        Dict d \<Rightarrow> (let r = output_item env h d 1 in (r, h @ [Output d 1 r]))
      | Str u \<Rightarrow> (let r = input_item env h u 1 in (r, h @ [Input u 1 r]))
      | Other x \<Rightarrow> (None, h))"

text \<open>
  Lines 95--111, \<^verbatim>\<open>while not self.signal.get("reach_max_num")\<close>. The loop has no
  bound of its own; the first argument is the number of iterations allowed, and \<open>None\<close>
  says that they did not suffice. \<open>Inl e\<close> is an exception leaving the loop.
\<close>

fun emit :: "nat \<Rightarrow> env \<Rightarrow> url \<Rightarrow> item \<Rightarrow> history \<Rightarrow> ((exn + unit) \<times> history) option" where
  "emit 0 env url task h = None"
| "emit (Suc n) env url task h =
     (let b = signal_get env h ''reach_max_num'';
          h1 = h @ [SignalGet ''reach_max_num'' b]
      in if b then Some (Inr (), h1)
         else (case put_item env task h1 of
                 (None, h2) \<Rightarrow> Some (Inr (), h2)
               | (Some e, h2) \<Rightarrow>
                   if e = QueueFull then emit n env url task (h2 @ [Sleep 1])
                   else if is_Exception e then emit n env url task (h2 @ [Log (Error_Put task url)])
                   else Some (Inl e, h2)))"

text \<open>
  Lines 94--113, \<^verbatim>\<open>for task in self.parse(response, **kwargs)\<close>, over the items
  the generator yields and its end \<open>fin\<close>; the quota is read again after each item.
\<close>

fun emit_all :: "nat \<Rightarrow> env \<Rightarrow> url \<Rightarrow> item list \<Rightarrow> exn option \<Rightarrow> history
    \<Rightarrow> ((exn + unit) \<times> history) option" where
  "emit_all n env url [] fin h =
     (case fin of None \<Rightarrow> Some (Inr (), h) | Some e \<Rightarrow> Some (Inl e, h))"
| "emit_all n env url (task # rest) fin h =
     (case emit n env url task h of
        None \<Rightarrow> None
      | Some (Inl e, h1) \<Rightarrow> Some (Inl e, h1)
      | Some (Inr u, h1) \<Rightarrow>
          (let b = signal_get env h1 ''reach_max_num'';
               h2 = h1 @ [SignalGet ''reach_max_num'' b]
           in if b then Some (Inr (), h2) else emit_all n env url rest fin h2))"

text \<open>Lines 83--84, the body of the outer \<^verbatim>\<open>try\<close>.\<close>

definition fetch :: "env \<Rightarrow> nat \<Rightarrow> url \<Rightarrow> history \<Rightarrow> (exn + response) \<times> history" where
  "fetch env req_timeout url h =
     (case urlsplit env url of
        Inl e \<Rightarrow> (Inl e, h)
      | Inr (scheme, netloc) \<Rightarrow>
          (let base_url = scheme @ ''://'' @ netloc;
               r = session_get env h url req_timeout base_url
           in (r, h @ [SessionGet url req_timeout base_url r])))"

text \<open>
  Lines 93--115, the \<^verbatim>\<open>else\<close> clause of the outer \<^verbatim>\<open>try\<close>: the log line,
  the \<^verbatim>\<open>for\<close> loop over what the callback yields, and \<^verbatim>\<open>task_done\<close>. An
  exception of the \<^verbatim>\<open>for\<close> loop passes through: no handler of the outer
  \<^verbatim>\<open>try\<close> applies to its \<^verbatim>\<open>else\<close> clause.
\<close>

definition parse_and_emit :: "nat \<Rightarrow> env \<Rightarrow> url \<Rightarrow> response \<Rightarrow> history
    \<Rightarrow> ((exn + unit) \<times> history) option" where
  "parse_and_emit n env url resp h1 =
     (let h2 = h1 @ [Log (Info_Parsing url)];
          (items, fin) = parse env h2 resp
      in case emit_all n env url items fin h2 of
           None \<Rightarrow> None
         | Some (Inl e, h3) \<Rightarrow> Some (Inl e, h3)
         | Some (Inr u, h3) \<Rightarrow> Some (Inr (), h3 @ [TaskDone]))"

text \<open>
  Lines 81--117, \<^verbatim>\<open>while retry > 0\<close> with its \<^verbatim>\<open>try/except/else/finally\<close>:
  the \<^verbatim>\<open>except Exception\<close> clause guards the fetch only, the \<^verbatim>\<open>else\<close> clause
  ends with \<^verbatim>\<open>break\<close>, and \<^verbatim>\<open>finally\<close> takes one from the budget.
\<close>

function fetch_loop :: "nat \<Rightarrow> env \<Rightarrow> nat \<Rightarrow> url \<Rightarrow> int \<Rightarrow> history
    \<Rightarrow> ((exn + unit) \<times> history) option" where
  "fetch_loop n env req_timeout url retry h =
     (if retry > 0 then
        (case fetch env req_timeout url h of
           (Inl e, h1) \<Rightarrow>
             if is_Exception e
             then fetch_loop n env req_timeout url (retry - 1)
                    (h1 @ [Log (Error_Fetch url e (retry - 1))])
             else Some (Inl e, h1)
         | (Inr resp, h1) \<Rightarrow> parse_and_emit n env url resp h1)
      else Some (Inr (), h))"
  by pat_completeness auto
termination
  by (relation "measure (\<lambda>(n, env, req_timeout, url, retry, h). nat retry)") auto

declare fetch_loop.simps [simp del]

text \<open>
  Lines 58--117, \<^verbatim>\<open>while True\<close>. The first argument bounds the iterations of
  this loop and, one less, those of each emission loop it starts.
\<close>

fun worker_loop :: "nat \<Rightarrow> env \<Rightarrow> nat \<Rightarrow> nat \<Rightarrow> int \<Rightarrow> history \<Rightarrow> (exit \<times> history) option" where
  "worker_loop 0 env queue_timeout req_timeout max_retry h = None"
| "worker_loop (Suc n) env queue_timeout req_timeout max_retry h =
     (let b = signal_get env h ''reach_max_num'';
          h1 = h @ [SignalGet ''reach_max_num'' b]
      in if b then Some (QuotaExit, h1 @ [Log Info_ReachMax])
         else
          (let r = in_queue_get env h1 queue_timeout;
               h2 = h1 @ [QueueGet queue_timeout r]
           in case r of
                Inl e \<Rightarrow>
                  if e = QueueEmpty then
                    (let f = signal_get env h2 ''feeder_exited'';
                         h3 = h2 @ [SignalGet ''feeder_exited'' f]
                     in if f then Some (SourceExhausted, h3 @ [Log Info_NoMoreUrls])
                        else worker_loop n env queue_timeout req_timeout max_retry
                               (h3 @ [Log Info_Waiting]))
                  else worker_loop n env queue_timeout req_timeout max_retry
                         (h2 @ [Log Error_Dequeue])
              | Inr url \<Rightarrow>
                  (case fetch_loop n env req_timeout url max_retry
                          (h2 @ [Log (Debug_StartFetch url)]) of
                     None \<Rightarrow> None
                   | Some (Inl e, h3) \<Rightarrow> Some (Raised e, h3)
                   | Some (Inr u, h3) \<Rightarrow>
                       worker_loop n env queue_timeout req_timeout max_retry h3)))"

text \<open>
  \<^verbatim>\<open>worker_exec\<close>: the loop from the empty history, then line 118, which an
  exception leaving the loop skips.
\<close>

definition worker_exec :: "nat \<Rightarrow> env \<Rightarrow> nat \<Rightarrow> nat \<Rightarrow> int \<Rightarrow> (exit \<times> history) option" where
  "worker_exec fuel env queue_timeout req_timeout max_retry =
     (case worker_loop fuel env queue_timeout req_timeout max_retry [] of
        None \<Rightarrow> None
      | Some (Raised e, h) \<Rightarrow> Some (Raised e, h)
      | Some (ex, h) \<Rightarrow> Some (ex, h @ [Log Info_ThreadExit]))"

subsection \<open>Reading a history\<close>

text \<open>
  The events in which the worker does something to a queue, to the transport or to the
  clock, as opposed to reading a signal, logging and bookkeeping; and the pushes.
\<close>

fun is_work :: "event \<Rightarrow> bool" where
  "is_work (QueueGet t r) = True"
| "is_work (SessionGet u t ref r) = True"
| "is_work (Output d t r) = True"
| "is_work (Input u t r) = True"
| "is_work (Sleep t) = True"
| "is_work e = False"

fun is_emission :: "event \<Rightarrow> bool" where
  "is_emission (Output d t r) = True"
| "is_emission (Input u t r) = True"
| "is_emission e = False"

fun is_request :: "event \<Rightarrow> bool" where
  "is_request (SessionGet u t ref r) = True"
| "is_request e = False"

fun is_fetched :: "event \<Rightarrow> bool" where
  "is_fetched (SessionGet u t ref (Inr resp)) = True"
| "is_fetched e = False"

fun is_sleep :: "event \<Rightarrow> bool" where
  "is_sleep (Sleep t) = True"
| "is_sleep e = False"

fun is_dequeue :: "event \<Rightarrow> bool" where
  "is_dequeue (QueueGet t r) = True"
| "is_dequeue e = False"

fun is_task_done :: "event \<Rightarrow> bool" where
  "is_task_done TaskDone = True"
| "is_task_done e = False"

text \<open>The emission loops make no request, take no locator and never call task_done.\<close>

definition inner_only :: "history \<Rightarrow> bool" where
  "inner_only new \<longleftrightarrow> (\<forall>e\<in>set new. \<not> is_request e \<and> \<not> is_dequeue e \<and> \<not> is_task_done e)"

definition count_events :: "(event \<Rightarrow> bool) \<Rightarrow> history \<Rightarrow> nat" where
  "count_events P h = length (filter P h)"

text \<open>
  An event that records the answer of a collaborator is \<open>answered\<close> when the answer
  is the one the collaborator gives at the history \<open>h\<close> at which the call is made;
  the events \<open>new\<close> that follow a history \<open>h\<close> are \<open>faithful\<close> when each of them is
  answered at the history it extends.
\<close>

fun answered :: "env \<Rightarrow> history \<Rightarrow> event \<Rightarrow> bool" where
  "answered env h (SignalGet name b) = (b = signal_get env h name)"
| "answered env h (QueueGet t r) = (r = in_queue_get env h t)"
| "answered env h (SessionGet u t ref r) = (r = session_get env h u t ref)"
| "answered env h (Output d t r) = (r = output_item env h d t)"
| "answered env h (Input u t r) = (r = input_item env h u t)"
| "answered env h e = True"

fun faithful :: "env \<Rightarrow> history \<Rightarrow> history \<Rightarrow> bool" where
  "faithful env h [] = True"
| "faithful env h (e # es) = (answered env h e \<and> faithful env (h @ [e]) es)"

text \<open>
  \<open>guarded p h\<close>: every push and every dequeue of \<open>h\<close> comes right after a read of
  \<^verbatim>\<open>"reach_max_num"\<close> that returned false (\<open>p\<close> says whether the event before \<open>h\<close>
  was such a read).
\<close>

fun guarded :: "bool \<Rightarrow> history \<Rightarrow> bool" where
  "guarded p [] = True"
| "guarded p (e # es) =
     ((is_emission e \<or> is_dequeue e \<longrightarrow> p) \<and>
      guarded (e = SignalGet ''reach_max_num'' False) es)"

text \<open>
  \<open>quota_seen q h\<close>: what the last read of \<^verbatim>\<open>"reach_max_num"\<close> in \<open>h\<close> returned
  (\<open>q\<close> if there is none). \<open>quota_ok q h\<close>: no work event of \<open>h\<close> comes after a
  read that returned true without a later read that returned false.
\<close>

fun quota_step :: "bool \<Rightarrow> event \<Rightarrow> bool" where
  "quota_step q (SignalGet name b) = (if name = ''reach_max_num'' then b else q)"
| "quota_step q e = q"

fun quota_seen :: "bool \<Rightarrow> history \<Rightarrow> bool" where
  "quota_seen q [] = q"
| "quota_seen q (e # es) = quota_seen (quota_step q e) es"

fun quota_ok :: "bool \<Rightarrow> history \<Rightarrow> bool" where
  "quota_ok q [] = True"
| "quota_ok q (e # es) = ((is_work e \<longrightarrow> \<not> q) \<and> quota_ok (quota_step q e) es)"

text \<open>
  Modelled from the spec: the bounded queue (its class and the pool's are not among the
  sources) is FIFO, and a consumer that finds it empty gets the timeout. This is the
  input queue as one worker sees it when nobody else touches it: a locator it dequeues
  leaves at the front, a locator it pushes back with success joins at the rear.
  \<open>sole_consumer env q0\<close> says that the answers of \<^verbatim>\<open>in_queue.get\<close> in \<open>env\<close>
  are those of such a queue that starts as \<open>q0\<close>.
\<close>

fun queue_step :: "url list \<Rightarrow> event \<Rightarrow> url list" where
  "queue_step q (QueueGet t (Inr u)) = tl q"
| "queue_step q (Input u t None) = q @ [u]"
| "queue_step q e = q"

definition in_queue_after :: "url list \<Rightarrow> history \<Rightarrow> url list" where
  "in_queue_after q0 h = foldl queue_step q0 h"

fun dequeued :: "history \<Rightarrow> url list" where
  "dequeued [] = []"
| "dequeued (QueueGet t (Inr u) # es) = u # dequeued es"
| "dequeued (e # es) = dequeued es"

fun requeued :: "history \<Rightarrow> url list" where
  "requeued [] = []"
| "requeued (Input u t None # es) = u # requeued es"
| "requeued (e # es) = requeued es"

definition sole_consumer :: "env \<Rightarrow> url list \<Rightarrow> bool" where
  "sole_consumer env q0 \<longleftrightarrow>
     (\<forall>h t. in_queue_get env h t =
        (case in_queue_after q0 h of [] \<Rightarrow> Inl QueueEmpty | u # q \<Rightarrow> Inr u))"

text \<open>
  What follows a dequeue that timed out, in the events \<open>new\<close> of a run with exit
  \<open>ex\<close>: the read of \<^verbatim>\<open>"feeder_exited"\<close>, and then either the end of the run by
  the source-exhausted exit, with the events \<open>fin\<close>, when the signal is set, or the
  log line and the quota check of the next iteration when it is not.
\<close>

definition timeout_handled :: "exit \<Rightarrow> history \<Rightarrow> history \<Rightarrow> bool" where
  "timeout_handled ex fin post \<longleftrightarrow>
     (\<exists>f rest. post = SignalGet ''feeder_exited'' f # rest \<and>
        (if f then ex = SourceExhausted \<and> rest = fin
         else (\<exists>b rest'. rest = Log Info_Waiting # SignalGet ''reach_max_num'' b # rest')))"

definition after_timeout :: "exit \<Rightarrow> history \<Rightarrow> history \<Rightarrow> bool" where
  "after_timeout ex fin new \<longleftrightarrow>
     (\<forall>pre post t. new = pre @ QueueGet t (Inl QueueEmpty) # post \<longrightarrow>
        timeout_handled ex fin post)"


text \<open>
  The events of one push of an item with result \<open>r\<close>, and of one round of the emission
  loop in which the push raised the \<^verbatim>\<open>Exception\<close> \<open>e\<close>.
\<close>

fun push_events :: "item \<Rightarrow> exn option \<Rightarrow> history" where
  "push_events (Dict d) r = [Output d 1 r]"
| "push_events (Str u) r = [Input u 1 r]"
| "push_events (Other x) r = []"

definition failed_round :: "url \<Rightarrow> item \<Rightarrow> exn \<Rightarrow> history" where
  "failed_round url task e =
     SignalGet ''reach_max_num'' False # push_events task (Some e) @
     [if e = QueueFull then Sleep 1 else Log (Error_Put task url)]"

subsection \<open>A scenario\<close>

text \<open>
  One worker alone on its queues: the input queue starts as \<open>q0\<close>, the quota signal
  is set from the moment the history has \<open>quota\<close> events, the transport fails its first
  \<open>fails\<close> requests, a push finds its queue full until the worker has slept \<open>fulls\<close> times,
  \<^verbatim>\<open>"feeder_exited"\<close> reads \<open>fe\<close>, and the callback answers \<open>yields\<close>.
\<close>

definition scenario :: "url list \<Rightarrow> nat \<Rightarrow> nat \<Rightarrow> nat \<Rightarrow> bool \<Rightarrow> item list \<times> exn option \<Rightarrow> env" where
  "scenario q0 quota fails fulls fe yields =
     \<lparr> signal_get = (\<lambda>h name.
         if name = ''reach_max_num'' then quota \<le> length h
         else if name = ''feeder_exited'' then fe else False),
       in_queue_get = (\<lambda>h t.
         case in_queue_after q0 h of [] \<Rightarrow> Inl QueueEmpty | u # q \<Rightarrow> Inr u),
       urlsplit = (\<lambda>u. Inr (''http'', ''example.org'')),
       session_get = (\<lambda>h u t ref.
         if count_events is_request h < fails then Inl (Exception ''ConnectionError'')
         else Inr ''page''),
       parse = (\<lambda>h resp. yields),
       output_item = (\<lambda>h d t.
         if count_events is_sleep h < fulls then Some QueueFull else None),
       input_item = (\<lambda>h u t.
         if count_events is_sleep h < fulls then Some QueueFull else None) \<rparr>"

text \<open>
  The callback of the base class, \<^verbatim>\<open>Parser.parse\<close> (line 41), raises
  \<^verbatim>\<open>NotImplementedError\<close> when called.
\<close>

definition base_parse :: "item list \<times> exn option" where
  "base_parse = ([], Some (Exception ''NotImplementedError''))"

text \<open>An output side that never drains while the quota is never reached.\<close>

definition stalled :: env where
  "stalled =
     \<lparr> signal_get = (\<lambda>h name. False),
       in_queue_get = (\<lambda>h t. Inl QueueEmpty),
       urlsplit = (\<lambda>u. Inr (''http'', ''example.org'')),
       session_get = (\<lambda>h u t ref. Inr ''page''),
       parse = (\<lambda>h resp. ([], None)),
       output_item = (\<lambda>h d t. Some QueueFull),
       input_item = (\<lambda>h u t. Some QueueFull) \<rparr>"

definition five_tasks :: "item list \<times> exn option" where
  "five_tasks =
     ([Dict [(''file_url'', ''1'')], Dict [(''file_url'', ''2'')], Dict [(''file_url'', ''3'')],
       Dict [(''file_url'', ''4'')], Dict [(''file_url'', ''5'')]], None)"

section \<open>The orchestrator\<close>

text \<open>
  \<^verbatim>\<open>Crawler.crawl\<close> (icrawler/crawler.py, lines 148--192) calls the signal
  registry and the three pools. Their methods are parameters again, and the history
  records each call with its answer.
\<close>

datatype pool = Feeder | Parser | Downloader

type_synonym kwargs = "(string \<times> string) list"

datatype crawl_log =
    Start_Crawling
  | Starting_Feeder nat
  | Starting_Parser nat
  | Starting_Downloader nat
  | Crawl_Done

datatype crawl_event =
    SignalReset
  | PoolStart pool kwargs
  | IsAlive pool bool
  | SignalSet string bool
  | PollSleep nat
  | InQueueEmpty pool bool
  | ClearBuffer pool "bool option"
  | CrawlLog crawl_log

record crawler =
  thread_num :: "pool \<Rightarrow> nat"
  is_alive :: "crawl_event list \<Rightarrow> pool \<Rightarrow> bool"
  in_queue_empty :: "crawl_event list \<Rightarrow> pool \<Rightarrow> bool"

text \<open>
  Modelled from the spec: \<^verbatim>\<open>clear_buffer(discard_remaining)\<close> belongs to the pool
  class, which is not among the sources; without an argument it is the soft drain.
  \<open>ClearBuffer p a\<close> is the call on pool \<open>p\<close> with the argument \<open>a\<close> as written
  at the call (\<open>None\<close>: no argument), and \<open>discard_remaining a\<close> is the value the
  parameter then has.
\<close>

fun discard_remaining :: "bool option \<Rightarrow> bool" where
  "discard_remaining None = False"
| "discard_remaining (Some b) = b"

text \<open>Lines 163--165, \<^verbatim>\<open>{} if kwargs is None else kwargs\<close>.\<close>

fun or_empty :: "kwargs option \<Rightarrow> kwargs" where
  "or_empty None = []"
| "or_empty (Some kw) = kw"

text \<open>Lines 160--174.\<close>

definition start_pools :: "crawler \<Rightarrow> kwargs option \<Rightarrow> kwargs option \<Rightarrow> kwargs option
    \<Rightarrow> crawl_event list" where
  "start_pools c feeder_kwargs parser_kwargs downloader_kwargs =
     [SignalReset, CrawlLog Start_Crawling,
      CrawlLog (Starting_Feeder (thread_num c Feeder)),
      PoolStart Feeder (or_empty feeder_kwargs),
      CrawlLog (Starting_Parser (thread_num c Parser)),
      PoolStart Parser (or_empty parser_kwargs),
      CrawlLog (Starting_Downloader (thread_num c Downloader)),
      PoolStart Downloader (or_empty downloader_kwargs)]"

text \<open>Lines 176--183, \<^verbatim>\<open>while True\<close>; the first argument bounds the iterations.\<close>

fun poll_loop :: "nat \<Rightarrow> crawler \<Rightarrow> crawl_event list \<Rightarrow> crawl_event list option" where
  "poll_loop 0 c h = None"
| "poll_loop (Suc n) c h =
     (let fa = is_alive c h Feeder;
          h1 = h @ [IsAlive Feeder fa];
          h2 = (if \<not> fa then h1 @ [SignalSet ''feeder_exited'' True] else h1);
          pa = is_alive c h2 Parser;
          h3 = h2 @ [IsAlive Parser pa];
          h4 = (if \<not> pa then h3 @ [SignalSet ''parser_exited'' True] else h3);
          da = is_alive c h4 Downloader;
          h5 = h4 @ [IsAlive Downloader da]
      in if \<not> da then Some h5 else poll_loop n c (h5 @ [PollSleep 1]))"

text \<open>Lines 185--190.\<close>

definition clear_buffers :: "crawler \<Rightarrow> crawl_event list \<Rightarrow> crawl_event list" where
  "clear_buffers c h =
     (let fe = in_queue_empty c h Feeder;
          h1 = h @ [InQueueEmpty Feeder fe];
          h2 = (if \<not> fe then h1 @ [ClearBuffer Feeder None] else h1);
          pe = in_queue_empty c h2 Parser;
          h3 = h2 @ [InQueueEmpty Parser pe];
          h4 = (if \<not> pe then h3 @ [ClearBuffer Parser None] else h3);
          de = in_queue_empty c h4 Downloader;
          h5 = h4 @ [InQueueEmpty Downloader de]
      in if \<not> de then h5 @ [ClearBuffer Downloader (Some True)] else h5)"

definition crawl :: "nat \<Rightarrow> crawler \<Rightarrow> kwargs option \<Rightarrow> kwargs option \<Rightarrow> kwargs option
    \<Rightarrow> crawl_event list option" where
  "crawl fuel c feeder_kwargs parser_kwargs downloader_kwargs =
     (case poll_loop fuel c (start_pools c feeder_kwargs parser_kwargs downloader_kwargs) of
        None \<Rightarrow> None
      | Some h \<Rightarrow> Some (clear_buffers c h @ [CrawlLog Crawl_Done]))"

subsection \<open>The poll loop as the specification words it\<close>

text \<open>
  One round of the poll, given what the three liveness tests answer: the Feeder test and
  the signal it may set, the Parser test and its signal, the Downloader test, and the
  sleep when the Downloader is alive.
\<close>

fun poll_round :: "bool \<times> bool \<times> bool \<Rightarrow> crawl_event list" where
  "poll_round (fa, pa, da) =
     IsAlive Feeder fa # (if fa then [] else [SignalSet ''feeder_exited'' True]) @
     IsAlive Parser pa # (if pa then [] else [SignalSet ''parser_exited'' True]) @
     IsAlive Downloader da # (if da then [PollSleep 1] else [])"

fun downloader_alive :: "bool \<times> bool \<times> bool \<Rightarrow> bool" where
  "downloader_alive (fa, pa, da) = da"

text \<open>The final clearing, given what the three emptiness tests answer.\<close>

fun final_clearing :: "bool \<times> bool \<times> bool \<Rightarrow> crawl_event list" where
  "final_clearing (fe, pe, de) =
     InQueueEmpty Feeder fe # (if fe then [] else [ClearBuffer Feeder None]) @
     InQueueEmpty Parser pe # (if pe then [] else [ClearBuffer Parser None]) @
     InQueueEmpty Downloader de # (if de then [] else [ClearBuffer Downloader (Some True)])"

text \<open>
  The liveness and emptiness tests recorded in a history of the crawl carry the answers
  the pools give at the history at which they are asked.
\<close>

fun crawl_answered :: "crawler \<Rightarrow> crawl_event list \<Rightarrow> crawl_event \<Rightarrow> bool" where
  "crawl_answered c h (IsAlive p b) = (b = is_alive c h p)"
| "crawl_answered c h (InQueueEmpty p b) = (b = in_queue_empty c h p)"
| "crawl_answered c h e = True"

fun crawl_faithful :: "crawler \<Rightarrow> crawl_event list \<Rightarrow> crawl_event list \<Rightarrow> bool" where
  "crawl_faithful c h [] = True"
| "crawl_faithful c h (e # es) = (crawl_answered c h e \<and> crawl_faithful c (h @ [e]) es)"

text \<open>Every call of \<^verbatim>\<open>clear_buffer\<close> comes right after the emptiness test of the same
  pool, which answered false.\<close>

definition test_precedes_clear :: "crawl_event list \<Rightarrow> bool" where
  "test_precedes_clear xs \<longleftrightarrow>
     (\<forall>pre p a post. xs = pre @ ClearBuffer p a # post \<longrightarrow>
        (\<exists>pre'. pre = pre' @ [InQueueEmpty p False]))"

fun is_poll_event :: "crawl_event \<Rightarrow> bool" where
  "is_poll_event (IsAlive p b) = True"
| "is_poll_event (SignalSet name b) = True"
| "is_poll_event (PollSleep t) = True"
| "is_poll_event e = False"

text \<open>
  A crawl in which the pools die at fixed times: the Feeder is found dead from the second
  poll on, the Parser from the third, the Downloader at the third; at the end only the
  Feeder's queue is empty.
\<close>

definition crawl_scenario :: crawler where
  "crawl_scenario =
     \<lparr> thread_num = (\<lambda>p. 1),
       is_alive = (\<lambda>h p. length h < (case p of Feeder \<Rightarrow> 9 | Parser \<Rightarrow> 15 | Downloader \<Rightarrow> 18)),
       in_queue_empty = (\<lambda>h p. p = Feeder) \<rparr>"

section \<open>Properties of the parser worker\<close>

subsection \<open>The scenario, field by field\<close>

lemma scenario_simps:
  "signal_get (scenario q0 quota fails fulls fe yields) h name =
     (if name = ''reach_max_num'' then quota \<le> length h
      else if name = ''feeder_exited'' then fe else False)"
  "in_queue_get (scenario q0 quota fails fulls fe yields) h t =
     (case in_queue_after q0 h of [] \<Rightarrow> Inl QueueEmpty | u # q \<Rightarrow> Inr u)"
  "urlsplit (scenario q0 quota fails fulls fe yields) u = Inr (''http'', ''example.org'')"
  "session_get (scenario q0 quota fails fulls fe yields) h u t ref =
     (if count_events is_request h < fails then Inl (Exception ''ConnectionError'')
      else Inr ''page'')"
  "parse (scenario q0 quota fails fulls fe yields) h resp = yields"
  "output_item (scenario q0 quota fails fulls fe yields) h d t =
     (if count_events is_sleep h < fulls then Some QueueFull else None)"
  "input_item (scenario q0 quota fails fulls fe yields) h x t =
     (if count_events is_sleep h < fulls then Some QueueFull else None)"
  by (simp_all add: scenario_def)

lemmas run_simps =
  worker_exec_def scenario_simps fetch_loop.simps parse_and_emit_def fetch_def put_item_def Let_def
  count_events_def in_queue_after_def

subsection \<open>An exception of the callback\<close>

text \<open>
  Claim C2 says that no exception leaves \<^verbatim>\<open>worker_exec\<close>, whatever the transport
  and the callback do, a raising callback included. The code does otherwise: the
  \<^verbatim>\<open>for\<close> statement that runs the callback stands in the \<^verbatim>\<open>else\<close> clause of
  the outer \<^verbatim>\<open>try\<close>, where no handler applies. With the callback of the base class,
  which raises \<^verbatim>\<open>NotImplementedError\<close>, the first page that is fetched ends the
  worker: the exception leaves the loop, whatever the number of iterations allowed, and
  neither \<^verbatim>\<open>task_done\<close> nor the final log line is reached.
\<close>

theorem callback_exception_escapes:
  "worker_exec (Suc n) (scenario [''http://example.org/1''] 99 0 0 False base_parse) 2 5 3 =
     Some (Raised (Exception ''NotImplementedError''),
       [SignalGet ''reach_max_num'' False,
        QueueGet 2 (Inr ''http://example.org/1''),
        Log (Debug_StartFetch ''http://example.org/1''),
        SessionGet ''http://example.org/1'' 5 ''http://example.org'' (Inr ''page''),
        Log (Info_Parsing ''http://example.org/1'')])"
  by (simp add: run_simps base_parse_def)

subsection \<open>Items that are neither a dict nor a str\<close>

text \<open>
  Claim C9: an item that is neither a \<^verbatim>\<open>dict\<close> nor a \<^verbatim>\<open>str\<close> is pushed to no
  queue, raises nothing and logs nothing. One pass of the emission loop suffices and
  leaves a single event, the read of the quota signal; the loop returns normally. The
  \<^verbatim>\<open>for\<close> loop then reads the signal once more and, unless it is set, goes on with
  the next item.
\<close>

theorem other_item_discarded:
  "emit (Suc n) env url (Other x) h =
     Some (Inr (), h @ [SignalGet ''reach_max_num'' (signal_get env h ''reach_max_num'')]) \<and>
   emit_all (Suc n) env url (Other x # rest) fin h =
     (let h1 = h @ [SignalGet ''reach_max_num'' (signal_get env h ''reach_max_num'')];
          b = signal_get env h1 ''reach_max_num'';
          h2 = h1 @ [SignalGet ''reach_max_num'' b]
      in if b then Some (Inr (), h2) else emit_all (Suc n) env url rest fin h2)"
  by (simp add: put_item_def Let_def)


subsection \<open>The quota signal\<close>

lemma put_item_events: "put_item env task h = (r, h') \<Longrightarrow> h' = h @ push_events task r"
  by (cases task) (auto simp: put_item_def Let_def)

lemma quota_seen_append: "quota_seen q (a @ b) = quota_seen (quota_seen q a) b"
  by (induction a arbitrary: q) auto

lemma quota_ok_append:
  "quota_ok q (a @ b) \<longleftrightarrow> quota_ok q a \<and> quota_ok (quota_seen q a) b"
  by (induction a arbitrary: q) auto

lemma quota_push_events [simp]:
  "quota_ok False (push_events task r)" "quota_seen q (push_events task r) = q"
  by (cases task; simp)+

lemma emit_quota:
  "emit n env url task h = Some (r, h') \<Longrightarrow>
     \<exists>new. h' = h @ new \<and> quota_ok q new \<and> (\<forall>e. r = Inl e \<longrightarrow> \<not> quota_seen q new)"
proof (induction n arbitrary: h q)
  case 0
  then show ?case by simp
next
  case (Suc n)
  let ?b = "signal_get env h ''reach_max_num''"
  let ?h1 = "h @ [SignalGet ''reach_max_num'' ?b]"
  show ?case
  proof (cases ?b)
    case True
    with Suc.prems have "r = Inr ()" "h' = ?h1" by (auto simp: Let_def)
    then show ?thesis by simp
  next
    case False
    obtain pr h2 where p: "put_item env task ?h1 = (pr, h2)"
      by (cases "put_item env task ?h1")
    then have h2: "h2 = ?h1 @ push_events task pr" by (rule put_item_events)
    show ?thesis
    proof (cases pr)
      case None
      with Suc.prems False p have "r = Inr ()" "h' = h2" by (auto simp: Let_def)
      then show ?thesis using h2 False by (simp add: quota_ok_append)
    next
      case (Some e)
      show ?thesis
      proof (cases "is_Exception e")
        case False
        with Suc.prems \<open>\<not> ?b\<close> p Some have "r = Inl e" "h' = h2"
          by (auto simp: Let_def split: if_splits)
        then show ?thesis using h2 \<open>\<not> ?b\<close> by (simp add: quota_ok_append quota_seen_append)
      next
        case True
        define x where "x = (if e = QueueFull then Sleep 1 else Log (Error_Put task url))"
        from Suc.prems \<open>\<not> ?b\<close> p Some True have "emit n env url task (h2 @ [x]) = Some (r, h')"
          by (auto simp: Let_def x_def split: if_splits)
        from Suc.IH [OF this, of False] obtain new where
          new: "h' = (h2 @ [x]) @ new" "quota_ok False new" "\<forall>e. r = Inl e \<longrightarrow> \<not> quota_seen False new"
          by blast
        have x: "quota_ok False [x]" "quota_seen False [x] = False" by (simp_all add: x_def)
        show ?thesis
          using new h2 \<open>\<not> ?b\<close> x
          by (intro exI [of _ "SignalGet ''reach_max_num'' False # push_events task pr @ [x] @ new"])
             (simp add: quota_ok_append quota_seen_append)
      qed
    qed
  qed
qed

lemma emit_all_quota:
  "emit_all n env url items fin h = Some (r, h') \<Longrightarrow>
     \<exists>new. h' = h @ new \<and> quota_ok False new \<and> (\<forall>e. r = Inl e \<longrightarrow> \<not> quota_seen False new)"
proof (induction items arbitrary: h)
  case Nil
  then show ?case by (auto split: option.splits)
next
  case (Cons task rest)
  from Cons.prems obtain r1 h1 where e: "emit n env url task h = Some (r1, h1)"
    by (auto split: option.splits)
  from emit_quota [OF this, of False] obtain new1 where
    new1: "h1 = h @ new1" "quota_ok False new1" "\<forall>e. r1 = Inl e \<longrightarrow> \<not> quota_seen False new1"
    by blast
  show ?case
  proof (cases r1)
    case (Inl x)
    with Cons.prems e have "r = Inl x" "h' = h1" by auto
    then show ?thesis using new1 Inl by auto
  next
    case (Inr u)
    let ?b = "signal_get env h1 ''reach_max_num''"
    let ?h2 = "h1 @ [SignalGet ''reach_max_num'' ?b]"
    show ?thesis
    proof (cases ?b)
      case True
      with Cons.prems e Inr have "r = Inr ()" "h' = ?h2" by (auto simp: Let_def)
      then show ?thesis using new1
        by (intro exI [of _ "new1 @ [SignalGet ''reach_max_num'' ?b]"]) (simp add: quota_ok_append)
    next
      case False
      with Cons.prems e Inr have "emit_all n env url rest fin ?h2 = Some (r, h')"
        by (auto simp: Let_def)
      from Cons.IH [OF this] obtain new where
        new: "h' = ?h2 @ new" "quota_ok False new" "\<forall>e. r = Inl e \<longrightarrow> \<not> quota_seen False new"
        by blast
      then show ?thesis using new1 False
        by (intro exI [of _ "new1 @ [SignalGet ''reach_max_num'' False] @ new"])
           (simp add: quota_ok_append quota_seen_append)
    qed
  qed
qed

lemma fetch_events:
  "fetch env t url h = (r, h') \<Longrightarrow>
     \<exists>new. h' = h @ new \<and> quota_ok False new \<and> quota_seen q new = q"
  by (auto simp: fetch_def Let_def split: sum.splits prod.splits)

lemma fetch_loop_quota:
  "fetch_loop n env t url retry h = Some (r, h') \<Longrightarrow>
     \<exists>new. h' = h @ new \<and> quota_ok False new \<and> (\<forall>e. r = Inl e \<longrightarrow> \<not> quota_seen False new)"
proof (induction n env t url retry h rule: fetch_loop.induct)
  case (1 n env t url retry h)
  show ?case
  proof (cases "retry > 0")
    case False
    with "1.prems" show ?thesis by (simp add: fetch_loop.simps)
  next
    case True
    obtain fr h1 where f: "fetch env t url h = (fr, h1)" by (cases "fetch env t url h")
    from fetch_events [OF f, of False] obtain new1 where
      new1: "h1 = h @ new1" "quota_ok False new1" "quota_seen False new1 = False" by blast
    show ?thesis
    proof (cases fr)
      case (Inl e)
      show ?thesis
      proof (cases "is_Exception e")
        case False
        with "1.prems" True f Inl have "r = Inl e" "h' = h1" by (auto simp: fetch_loop.simps)
        then show ?thesis using new1 by auto
      next
        case ex: True
        let ?x = "Log (Error_Fetch url e (retry - 1))"
        from "1.prems" True f Inl ex
        have "fetch_loop n env t url (retry - 1) (h1 @ [?x]) = Some (r, h')"
          by (simp add: fetch_loop.simps)
        from "1.IH"(1) [OF True f [symmetric] Inl ex this] obtain new where
          new: "h' = (h1 @ [?x]) @ new" "quota_ok False new"
               "\<forall>e. r = Inl e \<longrightarrow> \<not> quota_seen False new" by blast
        then show ?thesis using new1
          by (intro exI [of _ "new1 @ [?x] @ new"]) (simp add: quota_ok_append quota_seen_append)
      qed
    next
      case (Inr resp)
      let ?h2 = "h1 @ [Log (Info_Parsing url)]"
      obtain items fin where p: "parse env ?h2 resp = (items, fin)" by (cases "parse env ?h2 resp")
      from "1.prems" True f Inr p obtain r3 h3 where
        ea: "emit_all n env url items fin ?h2 = Some (r3, h3)"
        by (auto simp: fetch_loop.simps parse_and_emit_def Let_def split: option.splits)
      from emit_all_quota [OF ea] obtain new where
        new: "h3 = ?h2 @ new" "quota_ok False new"
             "\<forall>e. r3 = Inl e \<longrightarrow> \<not> quota_seen False new" by blast
      show ?thesis
      proof (cases r3)
        case (Inl e)
        with "1.prems" True f Inr p ea have "r = Inl e" "h' = h3"
          by (auto simp: fetch_loop.simps parse_and_emit_def Let_def)
        then show ?thesis using new new1 Inl
          by (intro exI [of _ "new1 @ [Log (Info_Parsing url)] @ new"])
             (simp add: quota_ok_append quota_seen_append)
      next
        case (Inr u)
        with "1.prems" True f \<open>fr = Inr resp\<close> p ea have "r = Inr ()" "h' = h3 @ [TaskDone]"
          by (auto simp: fetch_loop.simps parse_and_emit_def Let_def)
        then show ?thesis using new new1
          by (intro exI [of _ "new1 @ [Log (Info_Parsing url)] @ new @ [TaskDone]"])
             (simp add: quota_ok_append quota_seen_append)
      qed
    qed
  qed
qed

lemma worker_loop_quota:
  "worker_loop n env qt rt mr h = Some (ex, h') \<Longrightarrow>
     \<exists>new. h' = h @ new \<and> quota_ok q new \<and> (ex = QuotaExit \<longleftrightarrow> quota_seen q new)"
proof (induction n arbitrary: h q)
  case 0
  then show ?case by simp
next
  case (Suc n)
  let ?b = "signal_get env h ''reach_max_num''"
  let ?h1 = "h @ [SignalGet ''reach_max_num'' ?b]"
  show ?case
  proof (cases ?b)
    case True
    with Suc.prems have "ex = QuotaExit" "h' = ?h1 @ [Log Info_ReachMax]" by (auto simp: Let_def)
    then show ?thesis using True by simp
  next
    case nb: False
    let ?r = "in_queue_get env ?h1 qt"
    let ?h2 = "?h1 @ [QueueGet qt ?r]"
    have pre: "quota_ok q [SignalGet ''reach_max_num'' False, QueueGet qt ?r]"
      "quota_seen q [SignalGet ''reach_max_num'' False, QueueGet qt ?r] = False" by simp_all
    show ?thesis
    proof (cases ?r)
      case (Inl e)
      show ?thesis
      proof (cases "e = QueueEmpty")
        case False
        with Suc.prems nb Inl
        have "worker_loop n env qt rt mr (?h2 @ [Log Error_Dequeue]) = Some (ex, h')"
          by (simp add: Let_def)
        from Suc.IH [OF this, of False] obtain new where
          "h' = (?h2 @ [Log Error_Dequeue]) @ new" "quota_ok False new"
          "ex = QuotaExit \<longleftrightarrow> quota_seen False new" by blast
        then show ?thesis using nb
          by (intro exI [of _ "[SignalGet ''reach_max_num'' False, QueueGet qt ?r,
                Log Error_Dequeue] @ new"]) simp
      next
        case True
        let ?f = "signal_get env ?h2 ''feeder_exited''"
        let ?h3 = "?h2 @ [SignalGet ''feeder_exited'' ?f]"
        show ?thesis
        proof (cases ?f)
          case True
          with Suc.prems nb Inl \<open>e = QueueEmpty\<close>
          have "ex = SourceExhausted" "h' = ?h3 @ [Log Info_NoMoreUrls]" by (auto simp: Let_def)
          then show ?thesis using nb by simp
        next
          case False
          with Suc.prems nb Inl \<open>e = QueueEmpty\<close>
          have "worker_loop n env qt rt mr (?h3 @ [Log Info_Waiting]) = Some (ex, h')"
            by (simp add: Let_def)
          from Suc.IH [OF this, of False] obtain new where
            "h' = (?h3 @ [Log Info_Waiting]) @ new" "quota_ok False new"
            "ex = QuotaExit \<longleftrightarrow> quota_seen False new" by blast
          then show ?thesis using nb
            by (intro exI [of _ "[SignalGet ''reach_max_num'' False, QueueGet qt ?r,
                  SignalGet ''feeder_exited'' ?f, Log Info_Waiting] @ new"]) simp
        qed
      qed
    next
      case (Inr url)
      let ?h3 = "?h2 @ [Log (Debug_StartFetch url)]"
      from Suc.prems nb Inr obtain r3 h3 where
        fl: "fetch_loop n env rt url mr ?h3 = Some (r3, h3)"
        by (auto simp: Let_def split: option.splits)
      from fetch_loop_quota [OF fl] obtain newf where
        newf: "h3 = ?h3 @ newf" "quota_ok False newf"
              "\<forall>e. r3 = Inl e \<longrightarrow> \<not> quota_seen False newf" by blast
      show ?thesis
      proof (cases r3)
        case (Inl e)
        with Suc.prems nb Inr fl have "ex = Raised e" "h' = h3" by (auto simp: Let_def)
        then show ?thesis using newf nb Inl
          by (intro exI [of _ "[SignalGet ''reach_max_num'' False, QueueGet qt ?r,
                Log (Debug_StartFetch url)] @ newf"]) (simp add: quota_ok_append quota_seen_append)
      next
        case r3: (Inr u)
        with Suc.prems nb Inr fl have "worker_loop n env qt rt mr h3 = Some (ex, h')"
          by (auto simp: Let_def)
        from Suc.IH [OF this, of "quota_seen False newf"] obtain new where
          "h' = h3 @ new" "quota_ok (quota_seen False newf) new"
          "ex = QuotaExit \<longleftrightarrow> quota_seen (quota_seen False newf) new" by blast
        then show ?thesis using newf nb
          by (intro exI [of _ "[SignalGet ''reach_max_num'' False, QueueGet qt ?r,
                Log (Debug_StartFetch url)] @ newf @ new"])
             (simp add: quota_ok_append quota_seen_append)
      qed
    qed
  qed
qed

lemma quota_stays:
  "quota_ok True post \<Longrightarrow> SignalGet ''reach_max_num'' False \<notin> set post \<Longrightarrow>
     (\<forall>e\<in>set post. \<not> is_work e) \<and> quota_seen True post"
proof (induction post)
  case Nil
  then show ?case by simp
next
  case (Cons e es)
  then have "quota_step True e = True" by (cases e) auto
  with Cons show ?case by auto
qed

lemma worker_exec_quota:
  assumes "worker_exec fuel env qt rt mr = Some (ex, tr)"
  shows "quota_ok True tr \<and> (ex = QuotaExit \<longleftrightarrow> quota_seen True tr)"
proof -
  from assms obtain h' where wl: "worker_loop fuel env qt rt mr [] = Some (ex, h')"
    and tr: "tr = h' \<or> tr = h' @ [Log Info_ThreadExit]"
    by (auto simp: worker_exec_def split: option.splits exit.splits)
  from worker_loop_quota [OF wl, of True]
  have "quota_ok True h'" "ex = QuotaExit \<longleftrightarrow> quota_seen True h'" by auto
  with tr show ?thesis by (auto simp: quota_ok_append quota_seen_append)
qed

lemma quota_safety:
  assumes run: "worker_exec fuel env qt rt mr = Some (ex, tr)"
    and split: "tr = pre @ SignalGet ''reach_max_num'' True # post"
    and stays: "SignalGet ''reach_max_num'' False \<notin> set post"
  shows "ex = QuotaExit \<and> (\<forall>e\<in>set post. \<not> is_work e)"
proof -
  from worker_exec_quota [OF run] split
  have "quota_ok True post" "ex = QuotaExit \<longleftrightarrow> quota_seen True post"
    by (simp_all add: quota_ok_append quota_seen_append)
  with quota_stays [OF this(1) stays] show ?thesis by simp
qed

lemma emit_extends: "emit n env url task h = Some (r, h') \<Longrightarrow> length h \<le> length h'"
  using emit_quota [of n env url task h r h' False] by auto

lemma emit_all_extends: "emit_all n env url items fin h = Some (r, h') \<Longrightarrow> length h \<le> length h'"
  using emit_all_quota [of n env url items fin h r h'] by auto

lemma fetch_loop_extends: "fetch_loop n env t url retry h = Some (r, h') \<Longrightarrow> length h \<le> length h'"
  using fetch_loop_quota [of n env t url retry h r h'] by auto

lemma emit_returns:
  assumes S: "\<forall>h. t0 \<le> length h \<longrightarrow> signal_get env h ''reach_max_num''"
  shows "0 < n \<Longrightarrow> t0 < n + length h \<Longrightarrow> emit n env url task h \<noteq> None"
proof (induction n arbitrary: h)
  case 0
  then show ?case by simp
next
  case (Suc n)
  let ?b = "signal_get env h ''reach_max_num''"
  let ?h1 = "h @ [SignalGet ''reach_max_num'' ?b]"
  show ?case
  proof (cases ?b)
    case True
    then show ?thesis by (simp add: Let_def)
  next
    case False
    with S have short: "length h < t0" by (meson not_le)
    obtain pr h2 where p: "put_item env task ?h1 = (pr, h2)"
      by (cases "put_item env task ?h1")
    then have h2: "h2 = ?h1 @ push_events task pr" by (rule put_item_events)
    have "emit n env url task (h2 @ [x]) \<noteq> None" for x
      using Suc.IH [of "h2 @ [x]"] Suc.prems short h2 by simp
    with False p show ?thesis by (auto simp: Let_def split: option.splits)
  qed
qed

lemma emit_all_returns:
  assumes S: "\<forall>h. t0 \<le> length h \<longrightarrow> signal_get env h ''reach_max_num''"
  shows "0 < n \<Longrightarrow> t0 < n + length h \<Longrightarrow> emit_all n env url items fin h \<noteq> None"
proof (induction items arbitrary: h)
  case Nil
  then show ?case by (simp split: option.splits)
next
  case (Cons task rest)
  from emit_returns [OF S Cons.prems] obtain r1 h1 where
    e: "emit n env url task h = Some (r1, h1)" by fastforce
  from emit_extends [OF e] Cons.prems
  have "emit_all n env url rest fin (h1 @ [x]) \<noteq> None" for x
    by (intro Cons.IH) auto
  with e show ?case by (auto simp: Let_def split: sum.splits)
qed

lemma fetch_extends: "fetch env t url h = (r, h') \<Longrightarrow> length h \<le> length h'"
  by (auto simp: fetch_def Let_def split: sum.splits prod.splits)

lemma fetch_loop_returns:
  "\<forall>h. t0 \<le> length h \<longrightarrow> signal_get env h ''reach_max_num'' \<Longrightarrow>
     0 < n \<Longrightarrow> t0 < n + length h \<Longrightarrow> fetch_loop n env t url retry h \<noteq> None"
proof (induction n env t url retry h rule: fetch_loop.induct)
  case (1 n env t url retry h)
  note S = "1.prems"(1)
  show ?case
  proof (cases "retry > 0")
    case False
    then show ?thesis by (simp add: fetch_loop.simps)
  next
    case True
    obtain fr h1 where f: "fetch env t url h = (fr, h1)" by (cases "fetch env t url h")
    note len = fetch_extends [OF f]
    show ?thesis
    proof (cases fr)
      case (Inl e)
      show ?thesis
      proof (cases "is_Exception e")
        case False
        with True f Inl show ?thesis by (simp add: fetch_loop.simps)
      next
        case ex: True
        have "fetch_loop n env t url (retry - 1) (h1 @ [Log (Error_Fetch url e (retry - 1))]) \<noteq> None"
          using "1.prems" len by (intro "1.IH" [OF True f [symmetric] Inl ex]) auto
        with True f Inl ex show ?thesis by (simp add: fetch_loop.simps)
      qed
    next
      case (Inr resp)
      let ?h2 = "h1 @ [Log (Info_Parsing url)]"
      obtain items fin where p: "parse env ?h2 resp = (items, fin)" by (cases "parse env ?h2 resp")
      have "emit_all n env url items fin ?h2 \<noteq> None"
        using "1.prems" len by (intro emit_all_returns [OF S]) auto
      with True f Inr p show ?thesis
        by (auto simp: fetch_loop.simps parse_and_emit_def Let_def split: sum.splits)
    qed
  qed
qed

lemma worker_loop_returns:
  assumes S: "\<forall>h. t0 \<le> length h \<longrightarrow> signal_get env h ''reach_max_num''"
  shows "0 < n \<Longrightarrow> t0 < n + length h \<Longrightarrow> worker_loop n env qt rt mr h \<noteq> None"
proof (induction n arbitrary: h)
  case 0
  then show ?case by simp
next
  case (Suc n)
  let ?b = "signal_get env h ''reach_max_num''"
  let ?h1 = "h @ [SignalGet ''reach_max_num'' ?b]"
  show ?case
  proof (cases ?b)
    case True
    then show ?thesis by (simp add: Let_def)
  next
    case False
    with S have short: "length h < t0" by (meson not_le)
    with Suc.prems have n: "0 < n" by simp
    have rec: "worker_loop n env qt rt mr h' \<noteq> None" if "length h < length h'" for h'
      using Suc.IH [of h'] n Suc.prems that by simp
    let ?r = "in_queue_get env ?h1 qt"
    let ?h2 = "?h1 @ [QueueGet qt ?r]"
    show ?thesis
    proof (cases ?r)
      case (Inl e)
      with False rec show ?thesis by (simp add: Let_def)
    next
      case (Inr url)
      let ?h3 = "?h2 @ [Log (Debug_StartFetch url)]"
      have "fetch_loop n env rt url mr ?h3 \<noteq> None"
        using n Suc.prems by (intro fetch_loop_returns [OF S]) auto
      then obtain r3 h3 where fl: "fetch_loop n env rt url mr ?h3 = Some (r3, h3)" by fastforce
      from fetch_loop_extends [OF fl] have "length h < length h3" by simp
      with rec have "worker_loop n env qt rt mr h3 \<noteq> None" by blast
      with False Inr fl show ?thesis by (auto simp: Let_def split: sum.splits)
    qed
  qed
qed

lemma worker_exec_returns:
  assumes S: "\<forall>h. t0 \<le> length h \<longrightarrow> signal_get env h ''reach_max_num''"
  shows "\<exists>ex tr. worker_exec (Suc t0) env qt rt mr = Some (ex, tr)"
proof -
  have "worker_loop (Suc t0) env qt rt mr [] \<noteq> None"
    by (rule worker_loop_returns [OF S]) simp_all
  then show ?thesis
    by (auto simp: worker_exec_def split: option.splits exit.splits)
qed

text \<open>
  The history is a faithful log: every recorded answer is the collaborator's, and every
  push and every dequeue comes right after a check of the quota signal that found it
  unset.
\<close>

lemma faithful_append:
  "faithful env h (a @ b) \<longleftrightarrow> faithful env h a \<and> faithful env (h @ a) b"
  by (induction a arbitrary: h) auto

lemma faithful_split:
  "faithful env h new \<Longrightarrow> new = pre @ e # post \<Longrightarrow> answered env (h @ pre) e"
  by (simp add: faithful_append)

lemma guarded_mono: "guarded False es \<Longrightarrow> guarded p es"
  by (cases es) auto

lemma guarded_append:
  "guarded p (a @ b) \<longleftrightarrow>
     guarded p a \<and> guarded (if a = [] then p else last a = SignalGet ''reach_max_num'' False) b"
  by (induction a arbitrary: p) auto

lemma guarded_appendI: "guarded p a \<Longrightarrow> guarded False b \<Longrightarrow> guarded p (a @ b)"
  by (simp add: guarded_append guarded_mono)

lemma guarded_before:
  "guarded p (pre @ e # post) \<Longrightarrow> is_emission e \<or> is_dequeue e \<Longrightarrow>
     (pre = [] \<and> p) \<or> (\<exists>pre'. pre = pre' @ [SignalGet ''reach_max_num'' False])"
proof (induction pre arbitrary: p)
  case Nil
  then show ?case by auto
next
  case (Cons a pre)
  from Cons.prems(1) have "guarded (a = SignalGet ''reach_max_num'' False) (pre @ e # post)"
    by simp
  from Cons.IH [OF this Cons.prems(2)]
  consider "pre = []" "a = SignalGet ''reach_max_num'' False"
    | pre' where "pre = pre' @ [SignalGet ''reach_max_num'' False]" by blast
  then show ?case
  proof cases
    case 1
    then have "a # pre = [] @ [SignalGet ''reach_max_num'' False]" by simp
    then show ?thesis by blast
  next
    case 2
    then have "a # pre = (a # pre') @ [SignalGet ''reach_max_num'' False]" by simp
    then show ?thesis by blast
  qed
qed

lemma guarded_split:
  assumes "guarded False new" and "new = pre @ e # post" and "is_emission e \<or> is_dequeue e"
  shows "\<exists>pre'. pre = pre' @ [SignalGet ''reach_max_num'' False]"
  using guarded_before [of False pre e post] assms by simp

lemma put_item_log:
  "put_item env task h = (r, h') \<Longrightarrow>
     faithful env h (push_events task r) \<and> guarded True (push_events task r) \<and>
     (\<forall>e\<in>set (push_events task r). e \<noteq> SignalGet ''reach_max_num'' False)"
  by (cases task) (auto simp: put_item_def Let_def)

lemma emit_log:
  "emit n env url task h = Some (r, h') \<Longrightarrow>
     \<exists>new. h' = h @ new \<and> faithful env h new \<and> guarded False new"
proof (induction n arbitrary: h)
  case 0
  then show ?case by simp
next
  case (Suc n)
  let ?b = "signal_get env h ''reach_max_num''"
  let ?h1 = "h @ [SignalGet ''reach_max_num'' ?b]"
  show ?case
  proof (cases ?b)
    case True
    with Suc.prems have "h' = ?h1" by (auto simp: Let_def)
    then show ?thesis by simp
  next
    case False
    obtain pr h2 where p: "put_item env task ?h1 = (pr, h2)"
      by (cases "put_item env task ?h1")
    then have h2: "h2 = ?h1 @ push_events task pr" by (rule put_item_events)
    note pl = put_item_log [OF p]
    have g1: "guarded False (SignalGet ''reach_max_num'' False # push_events task pr)"
      using pl by simp
    have f1: "faithful env h (SignalGet ''reach_max_num'' False # push_events task pr)"
      using pl False by simp
    show ?thesis
    proof (cases "\<exists>e. pr = Some e \<and> is_Exception e")
      case stop: False
      with Suc.prems \<open>\<not> ?b\<close> p have "h' = h2"
        by (auto simp: Let_def split: option.splits if_splits)
      then show ?thesis using h2 False g1 f1
        by (intro exI [of _ "SignalGet ''reach_max_num'' False # push_events task pr"]) simp
    next
      case True
      then obtain e where e: "pr = Some e" "is_Exception e" by blast
      define x where "x = (if e = QueueFull then Sleep 1 else Log (Error_Put task url))"
      from Suc.prems \<open>\<not> ?b\<close> p e have "emit n env url task (h2 @ [x]) = Some (r, h')"
        by (auto simp: Let_def x_def split: if_splits)
      from Suc.IH [OF this] obtain new where
        new: "h' = (h2 @ [x]) @ new" "faithful env (h2 @ [x]) new" "guarded False new"
        by blast
      have x: "guarded False [x]" "faithful env h2 [x]" by (simp_all add: x_def)
      let ?it = "SignalGet ''reach_max_num'' False # push_events task pr"
      have "faithful env h (?it @ [x] @ new)"
        using f1 x(2) new(2) h2 False by (simp add: faithful_append)
      moreover have "guarded False ([x] @ new)"
        using x(1) new(3) by (rule guarded_appendI)
      then have "guarded False (?it @ [x] @ new)"
        using g1 by (rule guarded_appendI [rotated])
      ultimately show ?thesis using new(1) h2 False
        by (intro exI [of _ "?it @ [x] @ new"]) simp
    qed
  qed
qed

lemma emit_all_log:
  "emit_all n env url items fin h = Some (r, h') \<Longrightarrow>
     \<exists>new. h' = h @ new \<and> faithful env h new \<and> guarded False new"
proof (induction items arbitrary: h)
  case Nil
  then show ?case by (auto split: option.splits)
next
  case (Cons task rest)
  from Cons.prems obtain r1 h1 where e: "emit n env url task h = Some (r1, h1)"
    by (auto split: option.splits)
  from emit_log [OF e] obtain new1 where
    new1: "h1 = h @ new1" "faithful env h new1" "guarded False new1" by blast
  show ?case
  proof (cases r1)
    case (Inl x)
    with Cons.prems e have "h' = h1" by auto
    then show ?thesis using new1 by auto
  next
    case (Inr u)
    let ?b = "signal_get env h1 ''reach_max_num''"
    let ?h2 = "h1 @ [SignalGet ''reach_max_num'' ?b]"
    have rd: "faithful env h1 [SignalGet ''reach_max_num'' ?b]"
      "guarded False [SignalGet ''reach_max_num'' ?b]" by simp_all
    show ?thesis
    proof (cases ?b)
      case True
      with Cons.prems e Inr have "h' = ?h2" by (auto simp: Let_def)
      moreover have "faithful env h (new1 @ [SignalGet ''reach_max_num'' ?b])"
        using new1 rd by (simp add: faithful_append)
      moreover have "guarded False (new1 @ [SignalGet ''reach_max_num'' ?b])"
        using new1(3) rd(2) by (rule guarded_appendI)
      ultimately show ?thesis using new1(1)
        by (intro exI [of _ "new1 @ [SignalGet ''reach_max_num'' ?b]"]) simp
    next
      case False
      with Cons.prems e Inr have "emit_all n env url rest fin ?h2 = Some (r, h')"
        by (auto simp: Let_def)
      from Cons.IH [OF this] obtain new where
        new: "h' = ?h2 @ new" "faithful env ?h2 new" "guarded False new" by blast
      have "faithful env h (new1 @ [SignalGet ''reach_max_num'' ?b] @ new)"
        using new1 rd new(2) by (simp add: faithful_append)
      moreover have "guarded False ([SignalGet ''reach_max_num'' ?b] @ new)"
        using rd(2) new(3) by (rule guarded_appendI)
      then have "guarded False (new1 @ [SignalGet ''reach_max_num'' ?b] @ new)"
        using new1(3) by (rule guarded_appendI [rotated])
      ultimately show ?thesis using new1(1) new(1)
        by (intro exI [of _ "new1 @ [SignalGet ''reach_max_num'' ?b] @ new"]) simp
    qed
  qed
qed

lemma fetch_log:
  "fetch env t url h = (r, h') \<Longrightarrow>
     \<exists>new. h' = h @ new \<and> faithful env h new \<and> guarded False new"
  by (auto simp: fetch_def Let_def split: sum.splits prod.splits)

lemma parse_and_emit_log:
  assumes "parse_and_emit n env url resp h = Some (r, h')"
  shows "\<exists>new. h' = h @ new \<and> faithful env h new \<and> guarded False new"
proof -
  let ?h2 = "h @ [Log (Info_Parsing url)]"
  obtain items fin where p: "parse env ?h2 resp = (items, fin)" by (cases "parse env ?h2 resp")
  from assms p obtain r3 h3 where ea: "emit_all n env url items fin ?h2 = Some (r3, h3)"
    and h': "h' = h3 \<or> h' = h3 @ [TaskDone]"
    by (auto simp: parse_and_emit_def Let_def split: option.splits sum.splits)
  from emit_all_log [OF ea] obtain new where
    new: "h3 = ?h2 @ new" "faithful env ?h2 new" "guarded False new" by blast
  have g: "guarded False (Log (Info_Parsing url) # new)"
    "guarded False (Log (Info_Parsing url) # new @ [TaskDone])"
    using new(3) guarded_appendI [OF new(3), of "[TaskDone]"] by (simp_all add: guarded_mono)
  have f: "faithful env h (Log (Info_Parsing url) # new)"
    "faithful env h (Log (Info_Parsing url) # new @ [TaskDone])"
    using new(2) by (simp_all add: faithful_append)
  from h' show ?thesis
  proof
    assume "h' = h3"
    with new(1) g(1) f(1) show ?thesis
      by (intro exI [of _ "Log (Info_Parsing url) # new"]) simp
  next
    assume "h' = h3 @ [TaskDone]"
    with new(1) g(2) f(2) show ?thesis
      by (intro exI [of _ "Log (Info_Parsing url) # new @ [TaskDone]"]) simp
  qed
qed

lemma fetch_loop_log:
  "fetch_loop n env t url retry h = Some (r, h') \<Longrightarrow>
     \<exists>new. h' = h @ new \<and> faithful env h new \<and> guarded False new"
proof (induction n env t url retry h rule: fetch_loop.induct)
  case (1 n env t url retry h)
  show ?case
  proof (cases "retry > 0")
    case False
    with "1.prems" show ?thesis by (auto simp: fetch_loop.simps)
  next
    case True
    obtain fr h1 where f: "fetch env t url h = (fr, h1)" by (cases "fetch env t url h")
    from fetch_log [OF f] obtain new1 where
      new1: "h1 = h @ new1" "faithful env h new1" "guarded False new1" by blast
    show ?thesis
    proof (cases fr)
      case (Inl e)
      show ?thesis
      proof (cases "is_Exception e")
        case False
        with "1.prems" True f Inl have "h' = h1" by (auto simp: fetch_loop.simps)
        then show ?thesis using new1 by auto
      next
        case ex: True
        let ?x = "Log (Error_Fetch url e (retry - 1))"
        from "1.prems" True f Inl ex
        have "fetch_loop n env t url (retry - 1) (h1 @ [?x]) = Some (r, h')"
          by (simp add: fetch_loop.simps)
        from "1.IH"(1) [OF True f [symmetric] Inl ex this] obtain new where
          new: "h' = (h1 @ [?x]) @ new" "faithful env (h1 @ [?x]) new" "guarded False new"
          by blast
        have "faithful env h (new1 @ [?x] @ new)"
          using new1 new(2) by (simp add: faithful_append)
        moreover have "guarded False ([?x] @ new)"
          using new(3) by (simp add: guarded_mono)
        then have "guarded False (new1 @ [?x] @ new)"
          using new1(3) by (rule guarded_appendI [rotated])
        ultimately show ?thesis using new1(1) new(1)
          by (intro exI [of _ "new1 @ [?x] @ new"]) simp
      qed
    next
      case (Inr resp)
      with "1.prems" True f have "parse_and_emit n env url resp h1 = Some (r, h')"
        by (simp add: fetch_loop.simps)
      from parse_and_emit_log [OF this] obtain new where
        new: "h' = h1 @ new" "faithful env h1 new" "guarded False new" by blast
      have "faithful env h (new1 @ new)"
        using new1 new(2) by (simp add: faithful_append)
      moreover have "guarded False (new1 @ new)"
        using new1(3) new(3) by (rule guarded_appendI)
      ultimately show ?thesis using new1(1) new(1)
        by (intro exI [of _ "new1 @ new"]) simp
    qed
  qed
qed

lemma worker_loop_log:
  "worker_loop n env qt rt mr h = Some (ex, h') \<Longrightarrow>
     \<exists>new. h' = h @ new \<and> faithful env h new \<and> guarded False new"
proof (induction n arbitrary: h)
  case 0
  then show ?case by simp
next
  case (Suc n)
  let ?b = "signal_get env h ''reach_max_num''"
  let ?h1 = "h @ [SignalGet ''reach_max_num'' ?b]"
  show ?case
  proof (cases ?b)
    case True
    with Suc.prems have "h' = ?h1 @ [Log Info_ReachMax]" by (auto simp: Let_def)
    then show ?thesis
      by (intro exI [of _ "[SignalGet ''reach_max_num'' ?b, Log Info_ReachMax]"]) simp
  next
    case nb: False
    let ?r = "in_queue_get env ?h1 qt"
    let ?h2 = "?h1 @ [QueueGet qt ?r]"
    let ?it = "[SignalGet ''reach_max_num'' ?b, QueueGet qt ?r]"
    have it: "faithful env h ?it" "guarded False ?it" "?h2 = h @ ?it"
      using nb by simp_all
    have ext: "\<exists>new. h' = h @ new \<and> faithful env h new \<and> guarded False new"
      if "h' = ?h2 @ mid @ new" "faithful env ?h2 mid" "guarded False mid"
        "faithful env (?h2 @ mid) new" "guarded False new" for mid new
    proof -
      have "faithful env h (?it @ mid @ new)"
        using it(1) that(2,4) by (simp add: faithful_append)
      moreover have "guarded False (mid @ new)" using that(3,5) by (rule guarded_appendI)
      then have "guarded False (?it @ mid @ new)" using it(2) by (rule guarded_appendI [rotated])
      ultimately show ?thesis using that(1)
        by (intro exI [of _ "?it @ mid @ new"]) simp
    qed
    show ?thesis
    proof (cases ?r)
      case (Inl e)
      show ?thesis
      proof (cases "e = QueueEmpty")
        case False
        with Suc.prems nb Inl
        have "worker_loop n env qt rt mr (?h2 @ [Log Error_Dequeue]) = Some (ex, h')"
          by (simp add: Let_def)
        from Suc.IH [OF this] obtain new where
          "h' = (?h2 @ [Log Error_Dequeue]) @ new"
          "faithful env (?h2 @ [Log Error_Dequeue]) new" "guarded False new" by blast
        then show ?thesis by (intro ext [of "[Log Error_Dequeue]" new]) simp_all
      next
        case True
        let ?f = "signal_get env ?h2 ''feeder_exited''"
        let ?h3 = "?h2 @ [SignalGet ''feeder_exited'' ?f]"
        show ?thesis
        proof (cases ?f)
          case True
          with Suc.prems nb Inl \<open>e = QueueEmpty\<close>
          have "h' = ?h3 @ [Log Info_NoMoreUrls]" by (auto simp: Let_def)
          then show ?thesis
            by (intro ext [of "[SignalGet ''feeder_exited'' ?f, Log Info_NoMoreUrls]" "[]"])
               simp_all
        next
          case False
          with Suc.prems nb Inl \<open>e = QueueEmpty\<close>
          have "worker_loop n env qt rt mr (?h3 @ [Log Info_Waiting]) = Some (ex, h')"
            by (simp add: Let_def)
          from Suc.IH [OF this] obtain new where
            "h' = (?h3 @ [Log Info_Waiting]) @ new"
            "faithful env (?h3 @ [Log Info_Waiting]) new" "guarded False new" by blast
          then show ?thesis
            by (intro ext [of "[SignalGet ''feeder_exited'' ?f, Log Info_Waiting]" new])
               simp_all
        qed
      qed
    next
      case (Inr url)
      let ?h3 = "?h2 @ [Log (Debug_StartFetch url)]"
      from Suc.prems nb Inr obtain r3 h3 where
        fl: "fetch_loop n env rt url mr ?h3 = Some (r3, h3)"
        by (auto simp: Let_def split: option.splits)
      from fetch_loop_log [OF fl] obtain newf where
        newf: "h3 = ?h3 @ newf" "faithful env ?h3 newf" "guarded False newf" by blast
      have mid: "faithful env ?h2 (Log (Debug_StartFetch url) # newf)"
        "guarded False (Log (Debug_StartFetch url) # newf)"
        using newf(2,3) by (simp_all add: guarded_mono)
      show ?thesis
      proof (cases r3)
        case (Inl e)
        with Suc.prems nb Inr fl have "h' = h3" by (auto simp: Let_def)
        with newf(1) mid show ?thesis
          by (intro ext [of "Log (Debug_StartFetch url) # newf" "[]"]) simp_all
      next
        case r3: (Inr u)
        with Suc.prems nb Inr fl have "worker_loop n env qt rt mr h3 = Some (ex, h')"
          by (auto simp: Let_def)
        from Suc.IH [OF this] obtain new where
          "h' = h3 @ new" "faithful env h3 new" "guarded False new" by blast
        with newf(1) mid show ?thesis
          by (intro ext [of "Log (Debug_StartFetch url) # newf" new]) simp_all
      qed
    qed
  qed
qed

lemma worker_exec_log:
  assumes "worker_exec fuel env qt rt mr = Some (ex, tr)"
  shows "faithful env [] tr \<and> guarded False tr"
proof -
  from assms obtain h' where wl: "worker_loop fuel env qt rt mr [] = Some (ex, h')"
    and tr: "tr = h' \<or> tr = h' @ [Log Info_ThreadExit]"
    by (auto simp: worker_exec_def split: option.splits exit.splits)
  from worker_loop_log [OF wl] have h': "faithful env [] h'" "guarded False h'" by auto
  have "guarded False (h' @ [Log Info_ThreadExit])"
    by (rule guarded_appendI [OF h'(2)]) simp
  with tr h' show ?thesis by (auto simp: faithful_append)
qed

lemma worker_exec_answered:
  assumes "worker_exec fuel env qt rt mr = Some (ex, tr)" and "tr = pre @ e # post"
  shows "answered env pre e"
  using faithful_split [of env "[]" tr pre e post] worker_exec_log [OF assms(1)] assms(2)
  by simp

lemma worker_exec_guarded:
  assumes "worker_exec fuel env qt rt mr = Some (ex, tr)" and "tr = pre @ e # post"
    and "is_emission e \<or> is_dequeue e"
  shows "\<exists>pre'. pre = pre' @ [SignalGet ''reach_max_num'' False] \<and>
           \<not> signal_get env pre' ''reach_max_num''"
proof -
  from worker_exec_log [OF assms(1)] have "guarded False tr" by simp
  from guarded_split [OF this assms(2,3)] obtain pre' where
    pre: "pre = pre' @ [SignalGet ''reach_max_num'' False]" by blast
  with assms(2) have "tr = pre' @ SignalGet ''reach_max_num'' False # e # post" by simp
  from worker_exec_answered [OF assms(1) this] pre show ?thesis by simp
qed

text \<open>
  Claim C1 says that the worker emits nothing once \<^verbatim>\<open>"reach_max_num"\<close> is set.
  The check of line 95 and the push of line 98 are two calls, and the signal may be set
  between them: in the run below the signal is set from the moment the history has six
  events, the sixth event is the check, which still finds it unset, and the push is made
  at the history of six events, where the signal is set.
\<close>

theorem quota_late_push:
  "worker_exec 2 (scenario [''http://example.org/1''] 6 0 0 False five_tasks) 2 5 3 =
     Some (QuotaExit,
       [SignalGet ''reach_max_num'' False,
        QueueGet 2 (Inr ''http://example.org/1''),
        Log (Debug_StartFetch ''http://example.org/1''),
        SessionGet ''http://example.org/1'' 5 ''http://example.org'' (Inr ''page''),
        Log (Info_Parsing ''http://example.org/1''),
        SignalGet ''reach_max_num'' False] @
       Output [(''file_url'', ''1'')] 1 None #
       [SignalGet ''reach_max_num'' True, TaskDone,
        SignalGet ''reach_max_num'' True, Log Info_ReachMax, Log Info_ThreadExit]) \<and>
   signal_get (scenario [''http://example.org/1''] 6 0 0 False five_tasks)
       [SignalGet ''reach_max_num'' False,
        QueueGet 2 (Inr ''http://example.org/1''),
        Log (Debug_StartFetch ''http://example.org/1''),
        SessionGet ''http://example.org/1'' 5 ''http://example.org'' (Inr ''page''),
        Log (Info_Parsing ''http://example.org/1''),
        SignalGet ''reach_max_num'' False] ''reach_max_num''"
  by (simp add: run_simps five_tasks_def numeral_2_eq_2)

text \<open>
  Claim C1 as amended, for every run of the worker that returns, whatever the
  collaborators do. First: every recorded answer is the collaborator's answer at that
  history. Second: every push and every dequeue comes right after a read of
  \<^verbatim>\<open>"reach_max_num"\<close> that returned false, the signal being unset at that read.
  Third: after a read that returns true and is followed by no read returning false, the
  history holds no push, no dequeue, no request and no sleep (the pending item is
  skipped, the rest of the sequence is abandoned, no further locator is taken), and the
  run ends by the quota exit. Fourth: when the signal is set at every history of at
  least \<open>t0\<close> events, no push and no dequeue is made at a history of more than \<open>t0\<close>
  events: at most the one call whose check came just before the signal was set. And
  the worker does return then, given enough iterations.
\<close>

theorem quota_stops_worker:
  "(worker_exec fuel env qt rt mr = Some (ex, tr) \<longrightarrow>
      (\<forall>pre e post. tr = pre @ e # post \<longrightarrow> answered env pre e) \<and>
      (\<forall>pre e post. tr = pre @ e # post \<and> (is_emission e \<or> is_dequeue e) \<longrightarrow>
         (\<exists>pre'. pre = pre' @ [SignalGet ''reach_max_num'' False] \<and>
            \<not> signal_get env pre' ''reach_max_num'')) \<and>
      (\<forall>pre post. tr = pre @ SignalGet ''reach_max_num'' True # post \<and>
         SignalGet ''reach_max_num'' False \<notin> set post \<longrightarrow>
         ex = QuotaExit \<and> (\<forall>e\<in>set post. \<not> is_work e)) \<and>
      ((\<forall>h. t0 \<le> length h \<longrightarrow> signal_get env h ''reach_max_num'') \<longrightarrow>
         (\<forall>pre e post. tr = pre @ e # post \<and> (is_emission e \<or> is_dequeue e) \<longrightarrow>
            length pre \<le> t0))) \<and>
   ((\<forall>h. t0 \<le> length h \<longrightarrow> signal_get env h ''reach_max_num'') \<longrightarrow>
      (\<exists>ex tr. worker_exec (Suc t0) env qt rt mr = Some (ex, tr)))"
proof (intro conjI impI allI)
  fix pre e post
  assume run: "worker_exec fuel env qt rt mr = Some (ex, tr)"
  {
    assume "tr = pre @ e # post"
    with run show "answered env pre e" by (rule worker_exec_answered)
  next
    assume "tr = pre @ e # post \<and> (is_emission e \<or> is_dequeue e)"
    with run show "\<exists>pre'. pre = pre' @ [SignalGet ''reach_max_num'' False] \<and>
        \<not> signal_get env pre' ''reach_max_num''"
      using worker_exec_guarded by blast
  next
    assume S: "\<forall>h. t0 \<le> length h \<longrightarrow> signal_get env h ''reach_max_num''"
      and "tr = pre @ e # post \<and> (is_emission e \<or> is_dequeue e)"
    with run obtain pre' where "pre = pre' @ [SignalGet ''reach_max_num'' False]"
      "\<not> signal_get env pre' ''reach_max_num''"
      using worker_exec_guarded by blast
    with S have "length pre' < t0" "length pre = Suc (length pre')" by (auto simp: not_le)
    then show "length pre \<le> t0" by simp
  }
next
  fix pre post
  assume run: "worker_exec fuel env qt rt mr = Some (ex, tr)"
    and a: "tr = pre @ SignalGet ''reach_max_num'' True # post \<and>
         SignalGet ''reach_max_num'' False \<notin> set post"
  from quota_safety [OF run] a
  show "ex = QuotaExit" "\<forall>e\<in>set post. \<not> is_work e" by auto
next
  assume "\<forall>h. t0 \<le> length h \<longrightarrow> signal_get env h ''reach_max_num''"
  then show "\<exists>ex tr. worker_exec (Suc t0) env qt rt mr = Some (ex, tr)"
    by (rule worker_exec_returns)
qed

text \<open>
  The run of the specification's test: the page yields five tasks and the quota is set
  right after the second was pushed; tasks three to five never reach the output queue.
\<close>

theorem quota_stops_worker_witness:
  "worker_exec 2 (scenario [''http://example.org/1''] 10 0 0 False five_tasks) 2 5 3 =
     Some (QuotaExit,
       [SignalGet ''reach_max_num'' False,
        QueueGet 2 (Inr ''http://example.org/1''),
        Log (Debug_StartFetch ''http://example.org/1''),
        SessionGet ''http://example.org/1'' 5 ''http://example.org'' (Inr ''page''),
        Log (Info_Parsing ''http://example.org/1''),
        SignalGet ''reach_max_num'' False, Output [(''file_url'', ''1'')] 1 None,
        SignalGet ''reach_max_num'' False,
        SignalGet ''reach_max_num'' False, Output [(''file_url'', ''2'')] 1 None] @
        SignalGet ''reach_max_num'' True #
       [TaskDone, SignalGet ''reach_max_num'' True, Log Info_ReachMax, Log Info_ThreadExit]) \<and>
   filter is_work
     [TaskDone, SignalGet ''reach_max_num'' True, Log Info_ReachMax, Log Info_ThreadExit] = [] \<and>
   (\<exists>ex tr. worker_exec 11 (scenario [''http://example.org/1''] 10 0 0 False five_tasks) 2 5 3 =
      Some (ex, tr))"
proof -
  let ?env = "scenario [''http://example.org/1''] 10 0 0 False five_tasks"
  let ?pre = "[SignalGet ''reach_max_num'' False,
        QueueGet 2 (Inr ''http://example.org/1''),
        Log (Debug_StartFetch ''http://example.org/1''),
        SessionGet ''http://example.org/1'' 5 ''http://example.org'' (Inr ''page''),
        Log (Info_Parsing ''http://example.org/1''),
        SignalGet ''reach_max_num'' False, Output [(''file_url'', ''1'')] 1 None,
        SignalGet ''reach_max_num'' False,
        SignalGet ''reach_max_num'' False, Output [(''file_url'', ''2'')] 1 None]"
  let ?post = "[TaskDone, SignalGet ''reach_max_num'' True, Log Info_ReachMax, Log Info_ThreadExit]"
  have run: "worker_exec 2 ?env 2 5 3 = Some (QuotaExit, ?pre @ SignalGet ''reach_max_num'' True # ?post)"
    by (simp add: run_simps five_tasks_def numeral_2_eq_2)
  have stays: "SignalGet ''reach_max_num'' False \<notin> set ?post" by simp
  have S: "\<forall>h. 10 \<le> length h \<longrightarrow> signal_get ?env h ''reach_max_num''"
    by (simp add: scenario_simps)
  note T = quota_stops_worker [of 2 ?env 2 5 3 QuotaExit
      "?pre @ SignalGet ''reach_max_num'' True # ?post" 10]
  from T [THEN conjunct1, THEN mp, OF run, THEN conjunct2, THEN conjunct2, THEN conjunct1,
      THEN spec, THEN spec, THEN mp, OF conjI [OF refl stays]]
  have "\<forall>e\<in>set ?post. \<not> is_work e" by simp
  then have "filter is_work ?post = []" by simp
  moreover from T [THEN conjunct2, THEN mp, OF S]
  have "\<exists>ex tr. worker_exec 11 ?env 2 5 3 = Some (ex, tr)" by simp
  ultimately show ?thesis using run by simp
qed

subsection \<open>The emission loop\<close>

lemma emit_shape:
  "emit n env url task h = Some (r, h') \<Longrightarrow>
     \<exists>es fin. h' = h @ concat (map (failed_round url task) es) @ fin \<and>
       (\<forall>e\<in>set es. is_Exception e) \<and> length es < n \<and>
       (r = Inr () \<and> fin = [SignalGet ''reach_max_num'' True] \<or>
        r = Inr () \<and> fin = SignalGet ''reach_max_num'' False # push_events task None \<or>
        (\<exists>e. r = Inl e \<and> \<not> is_Exception e \<and>
           fin = SignalGet ''reach_max_num'' False # push_events task (Some e)))"
proof (induction n arbitrary: h)
  case 0
  then show ?case by simp
next
  case (Suc n)
  let ?b = "signal_get env h ''reach_max_num''"
  let ?h1 = "h @ [SignalGet ''reach_max_num'' ?b]"
  show ?case
  proof (cases ?b)
    case True
    with Suc.prems have "r = Inr ()" "h' = ?h1" by (auto simp: Let_def)
    then show ?thesis using True by - (rule exI [of _ "[]"], simp)
  next
    case nb: False
    obtain pr h2 where p: "put_item env task ?h1 = (pr, h2)"
      by (cases "put_item env task ?h1")
    then have h2: "h2 = ?h1 @ push_events task pr" by (rule put_item_events)
    show ?thesis
    proof (cases pr)
      case None
      with Suc.prems nb p have "r = Inr ()" "h' = h2" by (auto simp: Let_def)
      then show ?thesis using h2 nb None by - (rule exI [of _ "[]"], simp)
    next
      case (Some e)
      show ?thesis
      proof (cases "is_Exception e")
        case False
        with Suc.prems nb p Some have "r = Inl e" "h' = h2"
          by (auto simp: Let_def split: if_splits)
        then show ?thesis using h2 nb Some False by - (rule exI [of _ "[]"], simp)
      next
        case True
        have fr: "h2 @ [if e = QueueFull then Sleep 1 else Log (Error_Put task url)] =
            h @ failed_round url task e"
          using h2 nb Some by (simp add: failed_round_def)
        from Suc.prems nb p Some True
        have "emit n env url task (h @ failed_round url task e) = Some (r, h')"
          unfolding fr [symmetric] by (auto simp: Let_def split: if_splits)
        from Suc.IH [OF this] obtain es fin where
          "h' = (h @ failed_round url task e) @ concat (map (failed_round url task) es) @ fin"
          "\<forall>e\<in>set es. is_Exception e" "length es < n"
          "r = Inr () \<and> fin = [SignalGet ''reach_max_num'' True] \<or>
           r = Inr () \<and> fin = SignalGet ''reach_max_num'' False # push_events task None \<or>
           (\<exists>e. r = Inl e \<and> \<not> is_Exception e \<and>
              fin = SignalGet ''reach_max_num'' False # push_events task (Some e))"
          by blast
        with True show ?thesis
          by (intro exI [of _ "e # es"] exI [of _ fin]) simp
      qed
    qed
  qed
qed




lemma emit_while_full:
  "count_events is_sleep h + k = fulls \<Longrightarrow> length h + 3 * k + 2 \<le> quota \<Longrightarrow>
     emit (Suc k) (scenario q0 quota fails fulls fe y) url (Dict d) h =
       Some (Inr (), h @ concat (replicate k (failed_round url (Dict d) QueueFull)) @
         [SignalGet ''reach_max_num'' False, Output d 1 None])"
proof (induction k arbitrary: h)
  case 0
  then show ?case by (simp add: scenario_simps put_item_def Let_def count_events_def)
next
  case (Suc k)
  let ?h = "h @ failed_round url (Dict d) QueueFull"
  have "emit (Suc k) (scenario q0 quota fails fulls fe y) url (Dict d) ?h =
       Some (Inr (), ?h @ concat (replicate k (failed_round url (Dict d) QueueFull)) @
         [SignalGet ''reach_max_num'' False, Output d 1 None])"
    using Suc.prems by (intro Suc.IH) (simp_all add: failed_round_def count_events_def)
  moreover have "emit (Suc (Suc k)) (scenario q0 quota fails fulls fe y) url (Dict d) h =
      emit (Suc k) (scenario q0 quota fails fulls fe y) url (Dict d) ?h"
    using Suc.prems
    by (simp add: scenario_simps put_item_def Let_def failed_round_def count_events_def
        del: emit.simps(2) add: emit.simps(2) [of "Suc k"])
  ultimately show ?case by simp
qed

lemma emit_never_gives_up:
  assumes "\<forall>h'. \<not> signal_get env h' ''reach_max_num''"
    and "\<forall>h'. fst (put_item env task h') = Some QueueFull"
  shows "emit n env url task h = None"
proof (induction n arbitrary: h)
  case 0
  then show ?case by simp
next
  case (Suc n)
  let ?h1 = "h @ [SignalGet ''reach_max_num'' False]"
  obtain h2 where "put_item env task ?h1 = (Some QueueFull, h2)"
    using assms(2) by (metis fst_conv surj_pair)
  then show ?case using assms(1) Suc.IH by (simp add: Let_def)
qed

lemma fetch_loop_while_full:
  assumes "0 < mr"
  shows "fetch_loop (Suc k) (scenario q0 (3 * k + 9) 0 k fe ([Dict d], None)) rt url mr [] =
     Some (Inr (),
       SessionGet url rt ''http://example.org'' (Inr ''page'') # Log (Info_Parsing url) #
       concat (replicate k (failed_round url (Dict d) QueueFull)) @
       [SignalGet ''reach_max_num'' False, Output d 1 None,
        SignalGet ''reach_max_num'' False, TaskDone])"
proof -
  let ?env = "scenario q0 (3 * k + 9) 0 k fe ([Dict d], None)"
  let ?h2 = "[SessionGet url rt ''http://example.org'' (Inr ''page''), Log (Info_Parsing url)]"
  have f: "fetch ?env rt url [] = (Inr ''page'', [SessionGet url rt ''http://example.org'' (Inr ''page'')])"
    by (simp add: fetch_def scenario_simps count_events_def Let_def)
  have e: "emit (Suc k) ?env url (Dict d) ?h2 =
      Some (Inr (), ?h2 @ concat (replicate k (failed_round url (Dict d) QueueFull)) @
         [SignalGet ''reach_max_num'' False, Output d 1 None])"
    by (rule emit_while_full) (simp_all add: count_events_def)
  have len: "length (concat (replicate k (failed_round url (Dict d) QueueFull))) = 3 * k"
    by (induction k) (simp_all add: failed_round_def)
  have "emit_all (Suc k) ?env url [Dict d] None ?h2 =
      Some (Inr (), ?h2 @ concat (replicate k (failed_round url (Dict d) QueueFull)) @
         [SignalGet ''reach_max_num'' False, Output d 1 None, SignalGet ''reach_max_num'' False])"
    using e len by (simp add: scenario_simps Let_def del: emit.simps)
  with assms f show ?thesis
    by (simp add: fetch_loop.simps [of "Suc k"] parse_and_emit_def scenario_simps
        del: emit.simps emit_all.simps)
qed

text \<open>
  Claim C4: a full queue never makes the worker drop an item. First part: every run of
  the emission loop is a sequence of failed rounds, each a read of the quota signal that
  returns false, a push of this same item that raised, and then the sleep of one second
  when the push raised \<^verbatim>\<open>queue.Full\<close> (the error log otherwise), followed by the
  end of the loop: the quota signal read as set, or the push of the item succeeding (or
  an exception that is no \<^verbatim>\<open>Exception\<close> leaving the loop). Second part: the
  number of such rounds has no bound and is not taken from the retry budget: with a
  queue that is full \<open>k\<close> times the item is pushed after \<open>k\<close> sleeps, with a
  single request to the transport, for every \<open>k\<close> and every budget
  \<open>max_retry > 0\<close>. Third part: while the queue stays full and the quota unset the
  loop does not end, however many iterations are allowed.
\<close>

theorem backpressure_retries:
  "(emit n env url task h = Some (r, h') \<longrightarrow>
      (\<exists>es fin. h' = h @ concat (map (failed_round url task) es) @ fin \<and>
         (\<forall>e\<in>set es. is_Exception e) \<and>
         (r = Inr () \<and> fin = [SignalGet ''reach_max_num'' True] \<or>
          r = Inr () \<and> fin = SignalGet ''reach_max_num'' False # push_events task None \<or>
          (\<exists>e. r = Inl e \<and> \<not> is_Exception e \<and>
             fin = SignalGet ''reach_max_num'' False # push_events task (Some e))))) \<and>
   (0 < mr \<longrightarrow>
      fetch_loop (Suc k) (scenario q0 (3 * k + 9) 0 k fe ([Dict d], None)) rt url mr [] =
        Some (Inr (),
          SessionGet url rt ''http://example.org'' (Inr ''page'') # Log (Info_Parsing url) #
          concat (replicate k (failed_round url (Dict d) QueueFull)) @
          [SignalGet ''reach_max_num'' False, Output d 1 None,
           SignalGet ''reach_max_num'' False, TaskDone])) \<and>
   ((\<forall>h'. \<not> signal_get env h' ''reach_max_num'') \<and>
    (\<forall>h'. fst (put_item env task h') = Some QueueFull) \<longrightarrow>
      emit n env url task h = None)"
  using emit_shape [of n env url task h r h'] fetch_loop_while_full [of mr k q0 fe d rt url]
    emit_never_gives_up [of env task n url h]
  by blast

text \<open>Four full rounds with a budget of three retries; and the queue that never drains.\<close>

theorem backpressure_retries_witness:
  "fetch_loop 5 (scenario [] 21 0 4 False ([Dict [(''file_url'', ''1'')]], None)) 5
       ''http://example.org/1'' 3 [] =
     Some (Inr (),
       [SessionGet ''http://example.org/1'' 5 ''http://example.org'' (Inr ''page''),
        Log (Info_Parsing ''http://example.org/1''),
        SignalGet ''reach_max_num'' False, Output [(''file_url'', ''1'')] 1 (Some QueueFull), Sleep 1,
        SignalGet ''reach_max_num'' False, Output [(''file_url'', ''1'')] 1 (Some QueueFull), Sleep 1,
        SignalGet ''reach_max_num'' False, Output [(''file_url'', ''1'')] 1 (Some QueueFull), Sleep 1,
        SignalGet ''reach_max_num'' False, Output [(''file_url'', ''1'')] 1 (Some QueueFull), Sleep 1,
        SignalGet ''reach_max_num'' False, Output [(''file_url'', ''1'')] 1 None,
        SignalGet ''reach_max_num'' False, TaskDone]) \<and>
   emit 1000 stalled ''http://example.org/1'' (Dict [(''file_url'', ''1'')]) [] = None"
proof -
  have 1: "\<forall>h'. \<not> signal_get stalled h' ''reach_max_num''"
    by (simp add: stalled_def)
  have 2: "\<forall>h'. fst (put_item stalled (Dict [(''file_url'', ''1'')]) h') = Some QueueFull"
    by (simp add: stalled_def put_item_def Let_def)
  have 3: "(0::int) < 3" by simp
  note T = backpressure_retries [where n = 1000 and env = stalled
      and url = "''http://example.org/1''"
      and task = "Dict [(''file_url'', ''1'')]" and h = "[]" and mr = 3 and k = 4 and ?q0.0 = "[]"
      and fe = False and d = "[(''file_url'', ''1'')]" and rt = 5]
  note B = T [THEN conjunct2, THEN conjunct1, rule_format, OF 3]
  note C = T [THEN conjunct2, THEN conjunct2, rule_format, OF conjI [OF 1 2]]
  have 5: "Suc 4 = 5" by simp
  from B have "fetch_loop 5 (scenario [] 21 0 4 False ([Dict [(''file_url'', ''1'')]], None)) 5
       ''http://example.org/1'' 3 [] =
     Some (Inr (),
       [SessionGet ''http://example.org/1'' 5 ''http://example.org'' (Inr ''page''),
        Log (Info_Parsing ''http://example.org/1''),
        SignalGet ''reach_max_num'' False, Output [(''file_url'', ''1'')] 1 (Some QueueFull), Sleep 1,
        SignalGet ''reach_max_num'' False, Output [(''file_url'', ''1'')] 1 (Some QueueFull), Sleep 1,
        SignalGet ''reach_max_num'' False, Output [(''file_url'', ''1'')] 1 (Some QueueFull), Sleep 1,
        SignalGet ''reach_max_num'' False, Output [(''file_url'', ''1'')] 1 (Some QueueFull), Sleep 1,
        SignalGet ''reach_max_num'' False, Output [(''file_url'', ''1'')] 1 None,
        SignalGet ''reach_max_num'' False, TaskDone])"
    unfolding 5 by (simp add: failed_round_def eval_nat_numeral)
  from this C show ?thesis by (rule conjI)
qed


subsection \<open>The retry loop\<close>

lemma count_events_append [simp]:
  "count_events P (a @ b) = count_events P a + count_events P b"
  by (simp add: count_events_def)

lemma count_events_Cons [simp]:
  "count_events P (e # es) = (if P e then 1 else 0) + count_events P es"
  "count_events P [] = 0"
  by (simp_all add: count_events_def)

lemma count_events_none: "\<forall>e\<in>set es. \<not> P e \<Longrightarrow> count_events P es = 0"
  by (induction es) auto

lemma inner_only_simps [simp]:
  "inner_only []"
  "inner_only (a @ b) \<longleftrightarrow> inner_only a \<and> inner_only b"
  "inner_only (e # es) \<longleftrightarrow> \<not> is_request e \<and> \<not> is_dequeue e \<and> \<not> is_task_done e \<and> inner_only es"
  by (auto simp: inner_only_def)

lemma inner_only_push [simp]: "inner_only (push_events task r)"
  by (cases task) simp_all

lemma inner_only_rounds [simp]: "inner_only (concat (map (failed_round url task) es))"
  by (induction es) (simp_all add: failed_round_def)

lemma emit_inner:
  assumes "emit n env url task h = Some (r, h')"
  shows "\<exists>new. h' = h @ new \<and> inner_only new"
proof -
  from emit_shape [OF assms] obtain es fin where
    "h' = h @ concat (map (failed_round url task) es) @ fin"
    "r = Inr () \<and> fin = [SignalGet ''reach_max_num'' True] \<or>
        r = Inr () \<and> fin = SignalGet ''reach_max_num'' False # push_events task None \<or>
        (\<exists>e. r = Inl e \<and> \<not> is_Exception e \<and>
           fin = SignalGet ''reach_max_num'' False # push_events task (Some e))"
    by blast
  then show ?thesis
    by (intro exI [of _ "concat (map (failed_round url task) es) @ fin"]) auto
qed

lemma emit_all_inner:
  "emit_all n env url items fin h = Some (r, h') \<Longrightarrow> \<exists>new. h' = h @ new \<and> inner_only new"
proof (induction items arbitrary: h)
  case Nil
  then show ?case by (auto split: option.splits)
next
  case (Cons task rest)
  from Cons.prems obtain r1 h1 where e: "emit n env url task h = Some (r1, h1)"
    by (auto split: option.splits)
  from emit_inner [OF e] obtain new1 where new1: "h1 = h @ new1" "inner_only new1" by blast
  show ?case
  proof (cases r1)
    case (Inl x)
    with Cons.prems e have "h' = h1" by auto
    then show ?thesis using new1 by auto
  next
    case (Inr u)
    let ?b = "signal_get env h1 ''reach_max_num''"
    let ?h2 = "h1 @ [SignalGet ''reach_max_num'' ?b]"
    show ?thesis
    proof (cases ?b)
      case True
      with Cons.prems e Inr have "h' = ?h2" by (auto simp: Let_def)
      then show ?thesis using new1
        by (intro exI [of _ "new1 @ [SignalGet ''reach_max_num'' ?b]"]) simp
    next
      case False
      with Cons.prems e Inr have "emit_all n env url rest fin ?h2 = Some (r, h')"
        by (auto simp: Let_def)
      from Cons.IH [OF this] obtain new where "h' = ?h2 @ new" "inner_only new" by blast
      then show ?thesis using new1 False
        by (intro exI [of _ "new1 @ [SignalGet ''reach_max_num'' False] @ new"]) simp
    qed
  qed
qed

text \<open>One dequeued locator: requests, successful requests and task_done calls.\<close>

lemma parse_and_emit_counts:
  assumes "parse_and_emit n env url resp h = Some (r, h')"
  shows "\<exists>new. h' = h @ new \<and> count_events is_request new = 0 \<and> count_events is_fetched new = 0 \<and>
     \<not> (\<exists>e\<in>set new. is_dequeue e) \<and>
     count_events is_task_done new = (case r of Inl e \<Rightarrow> 0 | Inr u \<Rightarrow> 1)"
proof -
  let ?h2 = "h @ [Log (Info_Parsing url)]"
  obtain items fin where p: "parse env ?h2 resp = (items, fin)" by (cases "parse env ?h2 resp")
  from assms p obtain r3 h3 where ea: "emit_all n env url items fin ?h2 = Some (r3, h3)"
    by (auto simp: parse_and_emit_def Let_def split: option.splits)
  from emit_all_inner [OF ea] obtain new where new: "h3 = ?h2 @ new" "inner_only new" by blast
  then have z: "count_events is_request new = 0" "count_events is_task_done new = 0"
    "\<not> (\<exists>e\<in>set new. is_dequeue e)"
    by (auto simp: inner_only_def intro: count_events_none)
  have "is_fetched e \<Longrightarrow> is_request e" for e by (cases e rule: is_fetched.cases) auto
  with new have zf: "count_events is_fetched new = 0"
    by (auto simp: inner_only_def intro!: count_events_none)
  show ?thesis
  proof (cases r3)
    case (Inl e)
    with assms p ea have "r = Inl e" "h' = h3" by (auto simp: parse_and_emit_def Let_def)
    then show ?thesis using new z zf
      by (intro exI [of _ "Log (Info_Parsing url) # new"]) simp
  next
    case (Inr u)
    with assms p ea have "r = Inr ()" "h' = h3 @ [TaskDone]"
      by (auto simp: parse_and_emit_def Let_def)
    then show ?thesis using new z zf
      by (intro exI [of _ "Log (Info_Parsing url) # new @ [TaskDone]"]) simp
  qed
qed

lemma fetch_counts:
  "fetch env t url h = (fr, h1) \<Longrightarrow>
     \<exists>new. h1 = h @ new \<and> count_events is_request new \<le> 1 \<and>
       count_events is_task_done new = 0 \<and> \<not> (\<exists>e\<in>set new. is_dequeue e) \<and>
       count_events is_fetched new = (case fr of Inl e \<Rightarrow> 0 | Inr resp \<Rightarrow> 1)"
  by (auto simp: fetch_def Let_def split: sum.splits prod.splits)

lemma fetch_loop_counts:
  "fetch_loop n env t url retry h = Some (r, h') \<Longrightarrow>
     \<exists>new. h' = h @ new \<and> count_events is_request new \<le> nat retry \<and>
       count_events is_fetched new \<le> 1 \<and> \<not> (\<exists>e\<in>set new. is_dequeue e) \<and>
       count_events is_task_done new =
         (case r of Inl e \<Rightarrow> 0 | Inr u \<Rightarrow> count_events is_fetched new)"
proof (induction n env t url retry h rule: fetch_loop.induct)
  case (1 n env t url retry h)
  show ?case
  proof (cases "retry > 0")
    case False
    with "1.prems" show ?thesis by (auto simp: fetch_loop.simps)
  next
    case True
    obtain fr h1 where f: "fetch env t url h = (fr, h1)" by (cases "fetch env t url h")
    from fetch_counts [OF f] obtain new1 where
      new1: "h1 = h @ new1" "count_events is_request new1 \<le> 1"
        "count_events is_task_done new1 = 0" "\<not> (\<exists>e\<in>set new1. is_dequeue e)"
        "count_events is_fetched new1 = (case fr of Inl e \<Rightarrow> 0 | Inr resp \<Rightarrow> 1)" by blast
    show ?thesis
    proof (cases fr)
      case (Inl e)
      show ?thesis
      proof (cases "is_Exception e")
        case False
        with "1.prems" True f Inl have "r = Inl e" "h' = h1" by (auto simp: fetch_loop.simps)
        then show ?thesis using new1 Inl True by (intro exI [of _ new1]) auto
      next
        case ex: True
        let ?x = "Log (Error_Fetch url e (retry - 1))"
        from "1.prems" True f Inl ex
        have "fetch_loop n env t url (retry - 1) (h1 @ [?x]) = Some (r, h')"
          by (simp add: fetch_loop.simps)
        from "1.IH"(1) [OF True f [symmetric] Inl ex this] obtain new where
          new: "h' = (h1 @ [?x]) @ new" "count_events is_request new \<le> nat (retry - 1)"
            "count_events is_fetched new \<le> 1" "\<not> (\<exists>e\<in>set new. is_dequeue e)"
            "count_events is_task_done new =
               (case r of Inl e \<Rightarrow> 0 | Inr u \<Rightarrow> count_events is_fetched new)" by blast
        then show ?thesis using new1 Inl True
          by (intro exI [of _ "new1 @ [?x] @ new"]) (auto split: sum.splits)
      qed
    next
      case (Inr resp)
      with "1.prems" True f have "parse_and_emit n env url resp h1 = Some (r, h')"
        by (simp add: fetch_loop.simps)
      from parse_and_emit_counts [OF this] obtain new where
        "h' = h1 @ new" "count_events is_request new = 0" "count_events is_fetched new = 0"
        "\<not> (\<exists>e\<in>set new. is_dequeue e)"
        "count_events is_task_done new = (case r of Inl e \<Rightarrow> 0 | Inr u \<Rightarrow> 1)" by blast
      then show ?thesis using new1 Inr True
        by (intro exI [of _ "new1 @ new"]) (auto split: sum.splits)
    qed
  qed
qed







subsection \<open>The bookkeeping of the input queue\<close>

text \<open>
  \<^verbatim>\<open>task_done\<close> is called in the \<^verbatim>\<open>else\<close> clause only, after the
  \<^verbatim>\<open>for\<close> loop. In a run that ends by one of the two exits of the loop the calls
  are as many as the requests that returned a response; in a run that an exception ends
  one call may be missing.
\<close>

lemma worker_loop_counts:
  "worker_loop n env qt rt mr h = Some (ex, h') \<Longrightarrow>
     \<exists>new. h' = h @ new \<and>
       (case ex of
          Raised e \<Rightarrow> count_events is_task_done new \<le> count_events is_fetched new \<and>
            count_events is_fetched new \<le> count_events is_task_done new + 1
        | _ \<Rightarrow> count_events is_task_done new = count_events is_fetched new)"
proof (induction n arbitrary: h)
  case 0
  then show ?case by simp
next
  case (Suc n)
  let ?b = "signal_get env h ''reach_max_num''"
  let ?h1 = "h @ [SignalGet ''reach_max_num'' ?b]"
  show ?case
  proof (cases ?b)
    case True
    with Suc.prems have "ex = QuotaExit" "h' = ?h1 @ [Log Info_ReachMax]" by (auto simp: Let_def)
    then show ?thesis
      by (intro exI [of _ "[SignalGet ''reach_max_num'' ?b, Log Info_ReachMax]"]) simp
  next
    case nb: False
    let ?r = "in_queue_get env ?h1 qt"
    let ?h2 = "?h1 @ [QueueGet qt ?r]"
    show ?thesis
    proof (cases ?r)
      case (Inl e)
      show ?thesis
      proof (cases "e = QueueEmpty")
        case False
        with Suc.prems nb Inl
        have "worker_loop n env qt rt mr (?h2 @ [Log Error_Dequeue]) = Some (ex, h')"
          by (simp add: Let_def)
        from Suc.IH [OF this] obtain new where
          "h' = (?h2 @ [Log Error_Dequeue]) @ new"
          "case ex of
             Raised e \<Rightarrow> count_events is_task_done new \<le> count_events is_fetched new \<and>
               count_events is_fetched new \<le> count_events is_task_done new + 1
           | _ \<Rightarrow> count_events is_task_done new = count_events is_fetched new" by blast
        then show ?thesis
          by (intro exI [of _ "[SignalGet ''reach_max_num'' ?b, QueueGet qt ?r,
                Log Error_Dequeue] @ new"]) (simp split: exit.splits)
      next
        case True
        let ?f = "signal_get env ?h2 ''feeder_exited''"
        let ?h3 = "?h2 @ [SignalGet ''feeder_exited'' ?f]"
        show ?thesis
        proof (cases ?f)
          case True
          with Suc.prems nb Inl \<open>e = QueueEmpty\<close>
          have "ex = SourceExhausted" "h' = ?h3 @ [Log Info_NoMoreUrls]" by (auto simp: Let_def)
          then show ?thesis
            by (intro exI [of _ "[SignalGet ''reach_max_num'' ?b, QueueGet qt ?r,
                  SignalGet ''feeder_exited'' ?f, Log Info_NoMoreUrls]"]) simp
        next
          case False
          with Suc.prems nb Inl \<open>e = QueueEmpty\<close>
          have "worker_loop n env qt rt mr (?h3 @ [Log Info_Waiting]) = Some (ex, h')"
            by (simp add: Let_def)
          from Suc.IH [OF this] obtain new where
            "h' = (?h3 @ [Log Info_Waiting]) @ new"
            "case ex of
               Raised e \<Rightarrow> count_events is_task_done new \<le> count_events is_fetched new \<and>
                 count_events is_fetched new \<le> count_events is_task_done new + 1
             | _ \<Rightarrow> count_events is_task_done new = count_events is_fetched new" by blast
          then show ?thesis
            by (intro exI [of _ "[SignalGet ''reach_max_num'' ?b, QueueGet qt ?r,
                  SignalGet ''feeder_exited'' ?f, Log Info_Waiting] @ new"])
               (simp split: exit.splits)
        qed
      qed
    next
      case (Inr url)
      let ?h3 = "?h2 @ [Log (Debug_StartFetch url)]"
      from Suc.prems nb Inr obtain r3 h3 where
        fl: "fetch_loop n env rt url mr ?h3 = Some (r3, h3)"
        by (auto simp: Let_def split: option.splits)
      from fetch_loop_counts [OF fl] obtain newf where
        newf: "h3 = ?h3 @ newf" "count_events is_fetched newf \<le> 1"
          "count_events is_task_done newf =
             (case r3 of Inl e \<Rightarrow> 0 | Inr u \<Rightarrow> count_events is_fetched newf)" by blast
      show ?thesis
      proof (cases r3)
        case (Inl e)
        with Suc.prems nb Inr fl have "ex = Raised e" "h' = h3" by (auto simp: Let_def)
        then show ?thesis using newf Inl
          by (intro exI [of _ "[SignalGet ''reach_max_num'' ?b, QueueGet qt ?r,
                Log (Debug_StartFetch url)] @ newf"]) simp
      next
        case r3: (Inr u)
        with Suc.prems nb Inr fl have "worker_loop n env qt rt mr h3 = Some (ex, h')"
          by (auto simp: Let_def)
        from Suc.IH [OF this] obtain new where
          "h' = h3 @ new"
          "case ex of
             Raised e \<Rightarrow> count_events is_task_done new \<le> count_events is_fetched new \<and>
               count_events is_fetched new \<le> count_events is_task_done new + 1
           | _ \<Rightarrow> count_events is_task_done new = count_events is_fetched new" by blast
        then show ?thesis using newf r3
          by (intro exI [of _ "[SignalGet ''reach_max_num'' ?b, QueueGet qt ?r,
                Log (Debug_StartFetch url)] @ newf @ new"]) (simp split: exit.splits)
      qed
    qed
  qed
qed

lemma task_done_bookkeeping:
  assumes "worker_exec fuel env qt rt mr = Some (ex, tr)"
  shows "case ex of
          Raised e \<Rightarrow> count_events is_task_done tr \<le> count_events is_fetched tr \<and>
            count_events is_fetched tr \<le> count_events is_task_done tr + 1
        | _ \<Rightarrow> count_events is_task_done tr = count_events is_fetched tr"
proof -
  from assms obtain h' where wl: "worker_loop fuel env qt rt mr [] = Some (ex, h')"
    and tr: "(\<exists>e. ex = Raised e) \<and> tr = h' \<or> (\<forall>e. ex \<noteq> Raised e) \<and> tr = h' @ [Log Info_ThreadExit]"
    by (auto simp: worker_exec_def split: option.splits exit.splits)
  from worker_loop_counts [OF wl] tr show ?thesis by (auto split: exit.splits)
qed

text \<open>
  Claim C10 says that \<^verbatim>\<open>task_done\<close> is called exactly once for each dequeued
  locator whose fetch succeeded. With the callback of the base class the worker dequeues
  a locator, fetches its page, and the exception of the callback leaves the loop before
  line 114: one locator dequeued, one successful request, no call of
  \<^verbatim>\<open>task_done\<close>. The run is the one of claim C2.
\<close>

theorem task_done_skipped:
  "\<exists>tr. worker_exec (Suc n) (scenario [''http://example.org/1''] 99 0 0 False base_parse) 2 5 3 =
          Some (Raised (Exception ''NotImplementedError''), tr) \<and>
        dequeued tr = [''http://example.org/1''] \<and>
        filter is_fetched tr =
          [SessionGet ''http://example.org/1'' 5 ''http://example.org'' (Inr ''page'')] \<and>
        filter is_task_done tr = []"
  by (simp add: run_simps base_parse_def)

subsection \<open>The exit on an exhausted source\<close>

lemma after_timeout_Nil [simp]: "after_timeout ex fin []"
  by (simp add: after_timeout_def)

lemma after_timeout_Cons:
  "after_timeout ex fin (e # es) \<longleftrightarrow>
     ((\<forall>t. e = QueueGet t (Inl QueueEmpty) \<longrightarrow> timeout_handled ex fin es) \<and>
      after_timeout ex fin es)"
proof
  assume a: "after_timeout ex fin (e # es)"
  have "timeout_handled ex fin es" if "e = QueueGet t (Inl QueueEmpty)" for t
    using a [unfolded after_timeout_def, rule_format, of "[]" t es] that by simp
  moreover have "after_timeout ex fin es"
    unfolding after_timeout_def
  proof (intro allI impI)
    fix pre post t
    assume "es = pre @ QueueGet t (Inl QueueEmpty) # post"
    then show "timeout_handled ex fin post"
      using a [unfolded after_timeout_def, rule_format, of "e # pre" t post] by simp
  qed
  ultimately show "(\<forall>t. e = QueueGet t (Inl QueueEmpty) \<longrightarrow> timeout_handled ex fin es) \<and>
      after_timeout ex fin es" by blast
next
  assume a: "(\<forall>t. e = QueueGet t (Inl QueueEmpty) \<longrightarrow> timeout_handled ex fin es) \<and>
      after_timeout ex fin es"
  show "after_timeout ex fin (e # es)"
    unfolding after_timeout_def
  proof (intro allI impI)
    fix pre post t
    assume s: "e # es = pre @ QueueGet t (Inl QueueEmpty) # post"
    show "timeout_handled ex fin post"
    proof (cases pre)
      case Nil
      with s a show ?thesis by simp
    next
      case (Cons x pre')
      with s have "es = pre' @ QueueGet t (Inl QueueEmpty) # post" by simp
      with a show ?thesis unfolding after_timeout_def by blast
    qed
  qed
qed

lemma after_timeout_other [simp]:
  "\<not> is_dequeue e \<Longrightarrow> after_timeout ex fin (e # es) \<longleftrightarrow> after_timeout ex fin es"
  by (auto simp: after_timeout_Cons)

lemma after_timeout_no_dequeue:
  "\<not> (\<exists>e\<in>set a. is_dequeue e) \<Longrightarrow> after_timeout ex fin (a @ b) \<longleftrightarrow> after_timeout ex fin b"
  by (induction a) auto

lemma timeout_handled_snoc:
  assumes "timeout_handled ex fin es"
  shows "timeout_handled ex (fin @ [x]) (es @ [x])"
proof -
  from assms obtain f rest where es: "es = SignalGet ''feeder_exited'' f # rest"
    and c: "if f then ex = SourceExhausted \<and> rest = fin
            else (\<exists>b rest'. rest = Log Info_Waiting # SignalGet ''reach_max_num'' b # rest')"
    unfolding timeout_handled_def by blast
  show ?thesis
  proof (cases f)
    case True
    with c es show ?thesis
      unfolding timeout_handled_def
      by (intro exI [of _ True] exI [of _ "fin @ [x]"]) simp
  next
    case False
    with c obtain b rest' where "rest = Log Info_Waiting # SignalGet ''reach_max_num'' b # rest'"
      by auto
    with es False show ?thesis
      unfolding timeout_handled_def
      by (intro exI [of _ False] exI [of _ "Log Info_Waiting # SignalGet ''reach_max_num'' b # rest' @ [x]"])
         simp
  qed
qed

lemma after_timeout_snoc:
  "after_timeout ex fin new \<Longrightarrow> \<not> is_dequeue x \<Longrightarrow> after_timeout ex (fin @ [x]) (new @ [x])"
proof (induction new)
  case Nil
  then show ?case by simp
next
  case (Cons e es)
  then show ?case by (auto simp: after_timeout_Cons timeout_handled_snoc)
qed

lemma timeout_handled_fin:
  assumes "timeout_handled ex fin es" and "ex \<noteq> SourceExhausted"
  shows "timeout_handled ex fin' es"
proof -
  from assms(1) obtain f rest where es: "es = SignalGet ''feeder_exited'' f # rest"
    and c: "if f then ex = SourceExhausted \<and> rest = fin
            else (\<exists>b rest'. rest = Log Info_Waiting # SignalGet ''reach_max_num'' b # rest')"
    unfolding timeout_handled_def by blast
  from c assms(2) have "\<not> f" by (auto split: if_splits)
  with c es show ?thesis
    unfolding timeout_handled_def by (intro exI [of _ False] exI [of _ rest]) simp
qed

lemma after_timeout_fin:
  "after_timeout ex fin new \<Longrightarrow> ex \<noteq> SourceExhausted \<Longrightarrow> after_timeout ex fin' new"
  unfolding after_timeout_def by (auto intro: timeout_handled_fin)

lemma worker_loop_timeouts:
  "worker_loop n env qt rt mr h = Some (ex, h') \<Longrightarrow>
     \<exists>new. h' = h @ new \<and> after_timeout ex [Log Info_NoMoreUrls] new \<and>
       (\<exists>b rest. new = SignalGet ''reach_max_num'' b # rest) \<and>
       (ex = SourceExhausted \<longrightarrow>
          (\<exists>pre. new = pre @ [QueueGet qt (Inl QueueEmpty), SignalGet ''feeder_exited'' True,
             Log Info_NoMoreUrls]))"
proof (induction n arbitrary: h)
  case 0
  then show ?case by simp
next
  case (Suc n)
  let ?b = "signal_get env h ''reach_max_num''"
  let ?h1 = "h @ [SignalGet ''reach_max_num'' ?b]"
  show ?case
  proof (cases ?b)
    case True
    with Suc.prems have "ex = QuotaExit" "h' = ?h1 @ [Log Info_ReachMax]" by (auto simp: Let_def)
    then show ?thesis
      by (intro exI [of _ "[SignalGet ''reach_max_num'' ?b, Log Info_ReachMax]"]) simp
  next
    case nb: False
    let ?r = "in_queue_get env ?h1 qt"
    let ?h2 = "?h1 @ [QueueGet qt ?r]"
    show ?thesis
    proof (cases ?r)
      case (Inl e)
      show ?thesis
      proof (cases "e = QueueEmpty")
        case False
        with Suc.prems nb Inl
        have "worker_loop n env qt rt mr (?h2 @ [Log Error_Dequeue]) = Some (ex, h')"
          by (simp add: Let_def)
        from Suc.IH [OF this] obtain new where
          new: "h' = (?h2 @ [Log Error_Dequeue]) @ new"
            "after_timeout ex [Log Info_NoMoreUrls] new"
            "ex = SourceExhausted \<longrightarrow>
              (\<exists>pre. new = pre @ [QueueGet qt (Inl QueueEmpty), SignalGet ''feeder_exited'' True,
                 Log Info_NoMoreUrls])" by blast
        let ?it = "[SignalGet ''reach_max_num'' ?b, QueueGet qt ?r, Log Error_Dequeue]"
        have "ex = SourceExhausted \<longrightarrow>
              (\<exists>pre. ?it @ new = pre @ [QueueGet qt (Inl QueueEmpty),
                 SignalGet ''feeder_exited'' True, Log Info_NoMoreUrls])"
          using new(3) by (metis append.assoc)
        with new(1,2) Inl False show ?thesis
          by (intro exI [of _ "?it @ new"]) (simp add: after_timeout_Cons)
      next
        case True
        let ?f = "signal_get env ?h2 ''feeder_exited''"
        let ?h3 = "?h2 @ [SignalGet ''feeder_exited'' ?f]"
        show ?thesis
        proof (cases ?f)
          case f: True
          with Suc.prems nb Inl \<open>e = QueueEmpty\<close>
          have "ex = SourceExhausted" "h' = ?h3 @ [Log Info_NoMoreUrls]" by (auto simp: Let_def)
          moreover have "timeout_handled SourceExhausted [Log Info_NoMoreUrls]
              [SignalGet ''feeder_exited'' True, Log Info_NoMoreUrls]"
            unfolding timeout_handled_def
            by (intro exI [of _ True] exI [of _ "[Log Info_NoMoreUrls]"]) simp
          moreover have "\<exists>pre. [SignalGet ''reach_max_num'' ?b, QueueGet qt (Inl QueueEmpty),
              SignalGet ''feeder_exited'' True, Log Info_NoMoreUrls] =
              pre @ [QueueGet qt (Inl QueueEmpty), SignalGet ''feeder_exited'' True,
                Log Info_NoMoreUrls]"
            by (intro exI [of _ "[SignalGet ''reach_max_num'' ?b]"]) simp
          ultimately show ?thesis using Inl \<open>e = QueueEmpty\<close> f
            by (intro exI [of _ "[SignalGet ''reach_max_num'' ?b, QueueGet qt ?r,
                  SignalGet ''feeder_exited'' ?f, Log Info_NoMoreUrls]"])
               (simp add: after_timeout_Cons)
        next
          case f: False
          with Suc.prems nb Inl \<open>e = QueueEmpty\<close>
          have "worker_loop n env qt rt mr (?h3 @ [Log Info_Waiting]) = Some (ex, h')"
            by (simp add: Let_def)
          from Suc.IH [OF this] obtain new where
            new: "h' = (?h3 @ [Log Info_Waiting]) @ new"
              "after_timeout ex [Log Info_NoMoreUrls] new"
              "\<exists>b rest. new = SignalGet ''reach_max_num'' b # rest"
              "ex = SourceExhausted \<longrightarrow>
                (\<exists>pre. new = pre @ [QueueGet qt (Inl QueueEmpty), SignalGet ''feeder_exited'' True,
                   Log Info_NoMoreUrls])" by blast
          let ?it = "[SignalGet ''reach_max_num'' ?b, QueueGet qt ?r,
                  SignalGet ''feeder_exited'' ?f, Log Info_Waiting]"
          have "ex = SourceExhausted \<longrightarrow>
              (\<exists>pre. ?it @ new = pre @ [QueueGet qt (Inl QueueEmpty),
                 SignalGet ''feeder_exited'' True, Log Info_NoMoreUrls])"
            using new(4) by (metis append.assoc)
          moreover have "timeout_handled ex [Log Info_NoMoreUrls]
              (SignalGet ''feeder_exited'' False # Log Info_Waiting # new)"
            using new(3) unfolding timeout_handled_def by auto
          ultimately show ?thesis using new(1,2) Inl \<open>e = QueueEmpty\<close> f
            by (intro exI [of _ "?it @ new"]) (simp add: after_timeout_Cons)
        qed
      qed
    next
      case (Inr url)
      let ?h3 = "?h2 @ [Log (Debug_StartFetch url)]"
      from Suc.prems nb Inr obtain r3 h3 where
        fl: "fetch_loop n env rt url mr ?h3 = Some (r3, h3)"
        by (auto simp: Let_def split: option.splits)
      from fetch_loop_counts [OF fl] obtain newf where
        newf: "h3 = ?h3 @ newf" "\<not> (\<exists>e\<in>set newf. is_dequeue e)" by blast
      let ?it = "[SignalGet ''reach_max_num'' ?b, QueueGet qt ?r, Log (Debug_StartFetch url)]"
      show ?thesis
      proof (cases r3)
        case (Inl e)
        with Suc.prems nb Inr fl have "ex = Raised e" "h' = h3" by (auto simp: Let_def)
        then show ?thesis using newf Inr after_timeout_no_dequeue [OF newf(2), of ex _ "[]"]
          by (intro exI [of _ "?it @ newf"]) (simp add: after_timeout_Cons)
      next
        case r3: (Inr u)
        with Suc.prems nb Inr fl have "worker_loop n env qt rt mr h3 = Some (ex, h')"
          by (auto simp: Let_def)
        from Suc.IH [OF this] obtain new where
          new: "h' = h3 @ new" "after_timeout ex [Log Info_NoMoreUrls] new"
            "ex = SourceExhausted \<longrightarrow>
              (\<exists>pre. new = pre @ [QueueGet qt (Inl QueueEmpty), SignalGet ''feeder_exited'' True,
                 Log Info_NoMoreUrls])" by blast
        have "ex = SourceExhausted \<longrightarrow>
              (\<exists>pre. ?it @ newf @ new = pre @ [QueueGet qt (Inl QueueEmpty),
                 SignalGet ''feeder_exited'' True, Log Info_NoMoreUrls])"
          using new(3) by (metis append.assoc)
        with new(1,2) newf Inr after_timeout_no_dequeue [OF newf(2), of ex _ new]
        show ?thesis
          by (intro exI [of _ "?it @ newf @ new"]) (simp add: after_timeout_Cons)
      qed
    qed
  qed
qed

lemma in_queue_after_append:
  "in_queue_after q0 (a @ b) = foldl queue_step (in_queue_after q0 a) b"
  by (simp add: in_queue_after_def)

lemma dequeued_append [simp]: "dequeued (a @ b) = dequeued a @ dequeued b"
  by (induction a rule: dequeued.induct) simp_all

lemma requeued_append [simp]: "requeued (a @ b) = requeued a @ requeued b"
  by (induction a rule: requeued.induct) simp_all

lemma no_dequeue_queue:
  "\<not> (\<exists>e\<in>set new. is_dequeue e) \<Longrightarrow>
     dequeued new = [] \<and> foldl queue_step q new = q @ requeued new"
proof (induction new arbitrary: q)
  case Nil
  then show ?case by simp
next
  case (Cons e es)
  then have es: "dequeued es = []" "\<And>q. foldl queue_step q es = q @ requeued es" by auto
  from Cons.prems have "\<not> is_dequeue e" by simp
  then have "dequeued (e # es) = dequeued es \<and> queue_step q e @ requeued es = q @ requeued (e # es)"
    by (cases "(q, e)" rule: queue_step.cases) auto
  with es show ?case by simp
qed

lemma worker_loop_drains:
  assumes sole: "sole_consumer env q0"
  shows "worker_loop n env qt rt mr h = Some (ex, h') \<Longrightarrow>
     dequeued h @ in_queue_after q0 h = q0 @ requeued h \<Longrightarrow>
     dequeued h' @ in_queue_after q0 h' = q0 @ requeued h' \<and>
     (ex = SourceExhausted \<longrightarrow> in_queue_after q0 h' = [])"
proof (induction n arbitrary: h)
  case 0
  then show ?case by simp
next
  case (Suc n)
  note inv = Suc.prems(2)
  let ?b = "signal_get env h ''reach_max_num''"
  let ?h1 = "h @ [SignalGet ''reach_max_num'' ?b]"
  have q1: "in_queue_after q0 ?h1 = in_queue_after q0 h" by (simp add: in_queue_after_append)
  show ?case
  proof (cases ?b)
    case True
    with Suc.prems(1) have "ex = QuotaExit" "h' = ?h1 @ [Log Info_ReachMax]"
      by (auto simp: Let_def)
    then show ?thesis using inv by (simp add: in_queue_after_append)
  next
    case nb: False
    let ?r = "in_queue_get env ?h1 qt"
    let ?h2 = "?h1 @ [QueueGet qt ?r]"
    from sole have r: "?r = (case in_queue_after q0 h of [] \<Rightarrow> Inl QueueEmpty | u # q \<Rightarrow> Inr u)"
      unfolding sole_consumer_def q1 [symmetric] by blast
    show ?thesis
    proof (cases "in_queue_after q0 h")
      case Nil
      with r have e: "?r = Inl QueueEmpty" by simp
      have q2: "in_queue_after q0 (?h2 @ x) = foldl queue_step [] x" for x
        using Nil e by (simp add: in_queue_after_append)
      let ?f = "signal_get env ?h2 ''feeder_exited''"
      let ?h3 = "?h2 @ [SignalGet ''feeder_exited'' ?f]"
      show ?thesis
      proof (cases ?f)
        case True
        with Suc.prems(1) nb e
        have "ex = SourceExhausted" "h' = ?h3 @ [Log Info_NoMoreUrls]" by (auto simp: Let_def)
        then show ?thesis using inv Nil e by (simp add: in_queue_after_append)
      next
        case False
        with Suc.prems(1) nb e
        have w: "worker_loop n env qt rt mr (?h3 @ [Log Info_Waiting]) = Some (ex, h')"
          by (simp add: Let_def)
        have "dequeued (?h3 @ [Log Info_Waiting]) @ in_queue_after q0 (?h3 @ [Log Info_Waiting]) =
            q0 @ requeued (?h3 @ [Log Info_Waiting])"
          using inv Nil e by (simp add: in_queue_after_append)
        from Suc.IH [OF w this] show ?thesis .
      qed
    next
      case (Cons url q)
      with r have e: "?r = Inr url" by simp
      let ?h3 = "?h2 @ [Log (Debug_StartFetch url)]"
      have q3: "in_queue_after q0 ?h3 = q" using Cons e by (simp add: in_queue_after_append)
      have inv3: "dequeued ?h3 @ in_queue_after q0 ?h3 = q0 @ requeued ?h3"
        using inv Cons e q3 by simp
      from Suc.prems(1) nb e obtain r3 h3 where
        fl: "fetch_loop n env rt url mr ?h3 = Some (r3, h3)"
        by (auto simp: Let_def split: option.splits)
      from fetch_loop_counts [OF fl] obtain newf where
        newf: "h3 = ?h3 @ newf" "\<not> (\<exists>e\<in>set newf. is_dequeue e)" by blast
      from no_dequeue_queue [OF newf(2)]
      have nf: "dequeued newf = []" "foldl queue_step q newf = q @ requeued newf" by auto
      have d3: "dequeued h3 = dequeued ?h3"
        unfolding newf(1) dequeued_append [of ?h3 newf] nf(1) by simp
      have r3: "requeued h3 = requeued ?h3 @ requeued newf"
        unfolding newf(1) by (rule requeued_append)
      have "in_queue_after q0 h3 = q @ requeued newf"
        unfolding newf(1) in_queue_after_append [of q0 ?h3 newf] q3 by (rule nf(2))
      with inv3 have inv': "dequeued h3 @ in_queue_after q0 h3 = q0 @ requeued h3"
        unfolding d3 r3 q3 by simp
      show ?thesis
      proof (cases r3)
        case (Inl x)
        with Suc.prems(1) nb e fl have "ex = Raised x" "h' = h3" by (auto simp: Let_def)
        with inv' show ?thesis by simp
      next
        case (Inr u)
        with Suc.prems(1) nb e fl have "worker_loop n env qt rt mr h3 = Some (ex, h')"
          by (auto simp: Let_def)
        from Suc.IH [OF this inv'] show ?thesis .
      qed
    qed
  qed
qed

lemma worker_exec_cases:
  assumes "worker_exec fuel env qt rt mr = Some (ex, tr)"
  obtains e where "ex = Raised e" "worker_loop fuel env qt rt mr [] = Some (ex, tr)"
  | h' where "\<forall>e. ex \<noteq> Raised e" "worker_loop fuel env qt rt mr [] = Some (ex, h')"
      "tr = h' @ [Log Info_ThreadExit]"
  using assms by (auto simp: worker_exec_def split: option.splits exit.splits)

lemma worker_exec_timeouts:
  assumes "worker_exec fuel env qt rt mr = Some (ex, tr)"
  shows "after_timeout ex [Log Info_NoMoreUrls, Log Info_ThreadExit] tr"
    and "ex = SourceExhausted \<longrightarrow>
          (\<exists>pre. tr = pre @ [QueueGet qt (Inl QueueEmpty), SignalGet ''feeder_exited'' True,
             Log Info_NoMoreUrls, Log Info_ThreadExit])"
proof -
  from assms show "after_timeout ex [Log Info_NoMoreUrls, Log Info_ThreadExit] tr"
  proof (cases rule: worker_exec_cases)
    case (1 e)
    from worker_loop_timeouts [OF 1(2)] have "after_timeout ex [Log Info_NoMoreUrls] tr" by auto
    with 1(1) show ?thesis by (auto intro: after_timeout_fin)
  next
    case (2 h')
    from worker_loop_timeouts [OF 2(2)] have "after_timeout ex [Log Info_NoMoreUrls] h'" by auto
    from after_timeout_snoc [OF this, of "Log Info_ThreadExit"] 2(3) show ?thesis by simp
  qed
  from assms show "ex = SourceExhausted \<longrightarrow>
          (\<exists>pre. tr = pre @ [QueueGet qt (Inl QueueEmpty), SignalGet ''feeder_exited'' True,
             Log Info_NoMoreUrls, Log Info_ThreadExit])"
  proof (cases rule: worker_exec_cases)
    case (1 e)
    then show ?thesis by simp
  next
    case (2 h')
    show ?thesis
    proof
      assume "ex = SourceExhausted"
      with worker_loop_timeouts [OF 2(2)] obtain pre where
        "h' = pre @ [QueueGet qt (Inl QueueEmpty), SignalGet ''feeder_exited'' True,
             Log Info_NoMoreUrls]" by auto
      with 2(3) show "\<exists>pre. tr = pre @ [QueueGet qt (Inl QueueEmpty),
          SignalGet ''feeder_exited'' True, Log Info_NoMoreUrls, Log Info_ThreadExit]"
        by (intro exI [of _ pre]) simp
    qed
  qed
qed

lemma worker_exec_drains:
  assumes run: "worker_exec fuel env qt rt mr = Some (SourceExhausted, tr)"
    and sole: "sole_consumer env q0"
  shows "in_queue_after q0 tr = [] \<and> dequeued tr = q0 @ requeued tr"
proof -
  from run obtain h' where wl: "worker_loop fuel env qt rt mr [] = Some (SourceExhausted, h')"
    and tr: "tr = h' @ [Log Info_ThreadExit]"
    by (cases rule: worker_exec_cases) auto
  have "dequeued [] @ in_queue_after q0 [] = q0 @ requeued []"
    by (simp add: in_queue_after_def)
  from worker_loop_drains [OF sole wl this]
  have "dequeued h' @ in_queue_after q0 h' = q0 @ requeued h'" "in_queue_after q0 h' = []"
    by auto
  with tr show ?thesis by (simp add: in_queue_after_append)
qed

text \<open>
  Claim C5 says that every locator in the queue when \<^verbatim>\<open>"feeder_exited"\<close> is set is
  dequeued and processed before the worker exits. The quota check comes first in every
  iteration: in the run below \<^verbatim>\<open>"feeder_exited"\<close> is set from the start and the
  queue holds two locators; the worker handles the first, then finds the quota signal
  set and leaves by the quota exit, the second locator still in the queue.
\<close>

theorem quota_exit_leaves_locator:
  "worker_exec 2 (scenario [''http://example.org/1'', ''http://example.org/2''] 9 0 0 True
       ([Dict [(''file_url'', ''1'')]], None)) 2 5 3 =
     Some (QuotaExit,
       [SignalGet ''reach_max_num'' False, QueueGet 2 (Inr ''http://example.org/1''),
        Log (Debug_StartFetch ''http://example.org/1''),
        SessionGet ''http://example.org/1'' 5 ''http://example.org'' (Inr ''page''),
        Log (Info_Parsing ''http://example.org/1''),
        SignalGet ''reach_max_num'' False, Output [(''file_url'', ''1'')] 1 None,
        SignalGet ''reach_max_num'' False, TaskDone,
        SignalGet ''reach_max_num'' True, Log Info_ReachMax, Log Info_ThreadExit]) \<and>
   signal_get (scenario [''http://example.org/1'', ''http://example.org/2''] 9 0 0 True
       ([Dict [(''file_url'', ''1'')]], None)) [] ''feeder_exited'' \<and>
   in_queue_after [''http://example.org/1'', ''http://example.org/2'']
       [SignalGet ''reach_max_num'' False, QueueGet 2 (Inr ''http://example.org/1''),
        Log (Debug_StartFetch ''http://example.org/1''),
        SessionGet ''http://example.org/1'' 5 ''http://example.org'' (Inr ''page''),
        Log (Info_Parsing ''http://example.org/1''),
        SignalGet ''reach_max_num'' False, Output [(''file_url'', ''1'')] 1 None,
        SignalGet ''reach_max_num'' False, TaskDone,
        SignalGet ''reach_max_num'' True, Log Info_ReachMax, Log Info_ThreadExit] =
     [''http://example.org/2'']"
  by (simp add: run_simps numeral_2_eq_2)

text \<open>
  Claim C5 as amended, for every run of the worker that returns. First part: every
  recorded answer is the collaborator's answer at that history. Second part: the run
  ends by the source-exhausted exit exactly when its history ends with a dequeue that
  timed out, the read of \<^verbatim>\<open>"feeder_exited"\<close> returning true, and the two log lines.
  Third part: every dequeue that timed out is followed by the read of
  \<^verbatim>\<open>"feeder_exited"\<close>, which records what the signal is at that history; when it
  is true the run ends there, by that exit; when it is false the worker logs that it
  waits and is back at the quota check of the next iteration. Fourth part, the
  consequence for the queue: the signal is read only after a timeout, so a worker that
  is the only consumer of its input queue, initially \<open>q0\<close>, cannot take the
  source-exhausted exit while a locator is left: at that exit the queue is empty, the
  locators it dequeued are those of \<open>q0\<close>, in order, followed by the ones it pushed back
  itself, and every page it fetched has been handled up to \<^verbatim>\<open>task_done\<close>. Nothing
  is said of the quota exit, which can leave locators behind, nor of what the retry loop
  does with a dequeued locator (claim C3).
\<close>

theorem source_exhaustion:
  assumes run: "worker_exec fuel env qt rt mr = Some (ex, tr)"
  shows "(\<forall>pre e post. tr = pre @ e # post \<longrightarrow> answered env pre e) \<and>
         (ex = SourceExhausted \<longleftrightarrow>
            (\<exists>pre. tr = pre @ [QueueGet qt (Inl QueueEmpty), SignalGet ''feeder_exited'' True,
               Log Info_NoMoreUrls, Log Info_ThreadExit])) \<and>
         (\<forall>pre post t. tr = pre @ QueueGet t (Inl QueueEmpty) # post \<longrightarrow>
            (\<exists>f rest. post = SignalGet ''feeder_exited'' f # rest \<and>
               f = signal_get env (pre @ [QueueGet t (Inl QueueEmpty)]) ''feeder_exited'' \<and>
               (if f then ex = SourceExhausted \<and> rest = [Log Info_NoMoreUrls, Log Info_ThreadExit]
                else (\<exists>b rest'. rest = Log Info_Waiting # SignalGet ''reach_max_num'' b # rest')))) \<and>
         (ex = SourceExhausted \<longrightarrow>
            count_events is_task_done tr = count_events is_fetched tr \<and>
            (sole_consumer env q0 \<longrightarrow> in_queue_after q0 tr = [] \<and> dequeued tr = q0 @ requeued tr))"
proof (intro conjI)
  note at = worker_exec_timeouts(1) [OF run]
  show "\<forall>pre e post. tr = pre @ e # post \<longrightarrow> answered env pre e"
    using worker_exec_answered [OF run] by blast
  show "ex = SourceExhausted \<longleftrightarrow>
      (\<exists>pre. tr = pre @ [QueueGet qt (Inl QueueEmpty), SignalGet ''feeder_exited'' True,
         Log Info_NoMoreUrls, Log Info_ThreadExit])"
  proof
    assume "ex = SourceExhausted"
    with worker_exec_timeouts(2) [OF run]
    show "\<exists>pre. tr = pre @ [QueueGet qt (Inl QueueEmpty), SignalGet ''feeder_exited'' True,
         Log Info_NoMoreUrls, Log Info_ThreadExit]" by blast
  next
    assume "\<exists>pre. tr = pre @ [QueueGet qt (Inl QueueEmpty), SignalGet ''feeder_exited'' True,
         Log Info_NoMoreUrls, Log Info_ThreadExit]"
    then obtain pre where "tr = pre @ QueueGet qt (Inl QueueEmpty) #
        [SignalGet ''feeder_exited'' True, Log Info_NoMoreUrls, Log Info_ThreadExit]" by auto
    with at have "timeout_handled ex [Log Info_NoMoreUrls, Log Info_ThreadExit]
        [SignalGet ''feeder_exited'' True, Log Info_NoMoreUrls, Log Info_ThreadExit]"
      unfolding after_timeout_def by blast
    then show "ex = SourceExhausted" unfolding timeout_handled_def by auto
  qed
  show "\<forall>pre post t. tr = pre @ QueueGet t (Inl QueueEmpty) # post \<longrightarrow>
      (\<exists>f rest. post = SignalGet ''feeder_exited'' f # rest \<and>
         f = signal_get env (pre @ [QueueGet t (Inl QueueEmpty)]) ''feeder_exited'' \<and>
         (if f then ex = SourceExhausted \<and> rest = [Log Info_NoMoreUrls, Log Info_ThreadExit]
          else (\<exists>b rest'. rest = Log Info_Waiting # SignalGet ''reach_max_num'' b # rest')))"
  proof (intro allI impI)
    fix pre post t
    assume split: "tr = pre @ QueueGet t (Inl QueueEmpty) # post"
    with at have "timeout_handled ex [Log Info_NoMoreUrls, Log Info_ThreadExit] post"
      unfolding after_timeout_def by blast
    then obtain f rest where post: "post = SignalGet ''feeder_exited'' f # rest"
      and c: "if f then ex = SourceExhausted \<and> rest = [Log Info_NoMoreUrls, Log Info_ThreadExit]
          else (\<exists>b rest'. rest = Log Info_Waiting # SignalGet ''reach_max_num'' b # rest')"
      unfolding timeout_handled_def by blast
    from split post
    have "tr = (pre @ [QueueGet t (Inl QueueEmpty)]) @ SignalGet ''feeder_exited'' f # rest"
      by simp
    from worker_exec_answered [OF run this]
    have "f = signal_get env (pre @ [QueueGet t (Inl QueueEmpty)]) ''feeder_exited''" by simp
    with post c show "\<exists>f rest. post = SignalGet ''feeder_exited'' f # rest \<and>
         f = signal_get env (pre @ [QueueGet t (Inl QueueEmpty)]) ''feeder_exited'' \<and>
         (if f then ex = SourceExhausted \<and> rest = [Log Info_NoMoreUrls, Log Info_ThreadExit]
          else (\<exists>b rest'. rest = Log Info_Waiting # SignalGet ''reach_max_num'' b # rest'))"
      by blast
  qed
  show "ex = SourceExhausted \<longrightarrow>
      count_events is_task_done tr = count_events is_fetched tr \<and>
      (sole_consumer env q0 \<longrightarrow> in_queue_after q0 tr = [] \<and> dequeued tr = q0 @ requeued tr)"
    using task_done_bookkeeping [OF run] worker_exec_drains [of fuel env qt rt mr tr q0] run
    by auto
qed

text \<open>Two locators in the queue and \<^verbatim>\<open>"feeder_exited"\<close> set from the start.\<close>

theorem source_exhaustion_witness:
  "worker_exec 3 (scenario [''http://example.org/1'', ''http://example.org/2''] 99 0 0 True
       ([Dict [(''file_url'', ''1'')]], None)) 2 5 3 =
     Some (SourceExhausted,
       [SignalGet ''reach_max_num'' False, QueueGet 2 (Inr ''http://example.org/1''),
        Log (Debug_StartFetch ''http://example.org/1''),
        SessionGet ''http://example.org/1'' 5 ''http://example.org'' (Inr ''page''),
        Log (Info_Parsing ''http://example.org/1''),
        SignalGet ''reach_max_num'' False, Output [(''file_url'', ''1'')] 1 None,
        SignalGet ''reach_max_num'' False, TaskDone,
        SignalGet ''reach_max_num'' False, QueueGet 2 (Inr ''http://example.org/2''),
        Log (Debug_StartFetch ''http://example.org/2''),
        SessionGet ''http://example.org/2'' 5 ''http://example.org'' (Inr ''page''),
        Log (Info_Parsing ''http://example.org/2''),
        SignalGet ''reach_max_num'' False, Output [(''file_url'', ''1'')] 1 None,
        SignalGet ''reach_max_num'' False, TaskDone,
        SignalGet ''reach_max_num'' False, QueueGet 2 (Inl QueueEmpty),
        SignalGet ''feeder_exited'' True, Log Info_NoMoreUrls, Log Info_ThreadExit]) \<and>
   (\<exists>tr. worker_exec 3 (scenario [''http://example.org/1'', ''http://example.org/2''] 99 0 0 True
       ([Dict [(''file_url'', ''1'')]], None)) 2 5 3 = Some (SourceExhausted, tr) \<and>
      in_queue_after [''http://example.org/1'', ''http://example.org/2''] tr = [] \<and>
      dequeued tr = [''http://example.org/1'', ''http://example.org/2''] @ requeued tr \<and>
      count_events is_task_done tr = count_events is_fetched tr)"
proof -
  let ?q0 = "[''http://example.org/1'', ''http://example.org/2'']"
  let ?env = "scenario ?q0 99 0 0 True ([Dict [(''file_url'', ''1'')]], None)"
  let ?tr = "[SignalGet ''reach_max_num'' False, QueueGet 2 (Inr ''http://example.org/1''),
        Log (Debug_StartFetch ''http://example.org/1''),
        SessionGet ''http://example.org/1'' 5 ''http://example.org'' (Inr ''page''),
        Log (Info_Parsing ''http://example.org/1''),
        SignalGet ''reach_max_num'' False, Output [(''file_url'', ''1'')] 1 None,
        SignalGet ''reach_max_num'' False, TaskDone,
        SignalGet ''reach_max_num'' False, QueueGet 2 (Inr ''http://example.org/2''),
        Log (Debug_StartFetch ''http://example.org/2''),
        SessionGet ''http://example.org/2'' 5 ''http://example.org'' (Inr ''page''),
        Log (Info_Parsing ''http://example.org/2''),
        SignalGet ''reach_max_num'' False, Output [(''file_url'', ''1'')] 1 None,
        SignalGet ''reach_max_num'' False, TaskDone,
        SignalGet ''reach_max_num'' False, QueueGet 2 (Inl QueueEmpty),
        SignalGet ''feeder_exited'' True, Log Info_NoMoreUrls, Log Info_ThreadExit]"
  have run: "worker_exec 3 ?env 2 5 3 = Some (SourceExhausted, ?tr)"
    by (simp add: run_simps numeral_3_eq_3)
  have sole: "sole_consumer ?env ?q0"
    by (simp add: sole_consumer_def scenario_simps)
  from source_exhaustion [OF run, of ?q0] sole
  have "in_queue_after ?q0 ?tr = [] \<and> dequeued ?tr = ?q0 @ requeued ?tr \<and>
      count_events is_task_done ?tr = count_events is_fetched ?tr" by blast
  with run show ?thesis by blast
qed

section \<open>Properties of the orchestrator\<close>

lemma poll_loop_rounds:
  "poll_loop n c h = Some h' \<Longrightarrow>
     \<exists>rounds. h' = h @ concat (map poll_round rounds) \<and> rounds \<noteq> [] \<and> length rounds \<le> n \<and>
       (\<forall>r\<in>set (butlast rounds). downloader_alive r) \<and> \<not> downloader_alive (last rounds)"
proof (induction n arbitrary: h)
  case 0
  then show ?case by simp
next
  case (Suc n)
  define fa where "fa = is_alive c h Feeder"
  define h2 where "h2 = h @ IsAlive Feeder fa # (if fa then [] else [SignalSet ''feeder_exited'' True])"
  define pa where "pa = is_alive c h2 Parser"
  define h4 where "h4 = h2 @ IsAlive Parser pa # (if pa then [] else [SignalSet ''parser_exited'' True])"
  define da where "da = is_alive c h4 Downloader"
  define h5 where "h5 = h4 @ [IsAlive Downloader da]"
  have step: "poll_loop (Suc n) c h = (if \<not> da then Some h5 else poll_loop n c (h5 @ [PollSleep 1]))"
    by (simp add: Let_def fa_def h2_def pa_def h4_def da_def h5_def)
  show ?case
  proof (cases da)
    case False
    with step Suc.prems have "h' = h5" by simp
    then have "h' = h @ concat (map poll_round [(fa, pa, da)])"
      using False by (simp add: h5_def h4_def h2_def)
    with False show ?thesis
      by (intro exI [of _ "[(fa, pa, da)]"]) simp
  next
    case True
    with step Suc.prems have "poll_loop n c (h5 @ [PollSleep 1]) = Some h'" by simp
    from Suc.IH [OF this] obtain rounds where
      r: "h' = (h5 @ [PollSleep 1]) @ concat (map poll_round rounds)" "rounds \<noteq> []"
        "length rounds \<le> n"
        "\<forall>r\<in>set (butlast rounds). downloader_alive r" "\<not> downloader_alive (last rounds)"
      by blast
    have "h5 @ [PollSleep 1] = h @ poll_round (fa, pa, da)"
      using True by (simp add: h5_def h4_def h2_def)
    with r show ?thesis
      by (intro exI [of _ "(fa, pa, da) # rounds"]) (use True in auto)
  qed
qed

lemma clear_buffers_events:
  "\<exists>fe pe de. clear_buffers c h = h @ final_clearing (fe, pe, de)"
proof -
  define fe where "fe = in_queue_empty c h Feeder"
  define h2 where "h2 = h @ InQueueEmpty Feeder fe # (if fe then [] else [ClearBuffer Feeder None])"
  define pe where "pe = in_queue_empty c h2 Parser"
  define h4 where "h4 = h2 @ InQueueEmpty Parser pe # (if pe then [] else [ClearBuffer Parser None])"
  define de where "de = in_queue_empty c h4 Downloader"
  have "clear_buffers c h = h @ final_clearing (fe, pe, de)"
    by (simp add: clear_buffers_def Let_def fe_def h2_def pe_def h4_def de_def)
  then show ?thesis by blast
qed

lemma crawl_shape:
  assumes "crawl fuel c fk pk dk = Some tr"
  shows "\<exists>rounds cl. tr = start_pools c fk pk dk @ concat (map poll_round rounds) @
       final_clearing cl @ [CrawlLog Crawl_Done] \<and> rounds \<noteq> [] \<and>
       (\<forall>r\<in>set (butlast rounds). downloader_alive r) \<and> \<not> downloader_alive (last rounds)"
proof -
  from assms obtain h where p: "poll_loop fuel c (start_pools c fk pk dk) = Some h"
    and tr: "tr = clear_buffers c h @ [CrawlLog Crawl_Done]"
    by (auto simp: crawl_def split: option.splits)
  from poll_loop_rounds [OF p] obtain rounds where
    r: "h = start_pools c fk pk dk @ concat (map poll_round rounds)" "rounds \<noteq> []"
      "\<forall>r\<in>set (butlast rounds). downloader_alive r" "\<not> downloader_alive (last rounds)"
    by blast
  from clear_buffers_events [of c h] obtain fe pe de where
    "clear_buffers c h = h @ final_clearing (fe, pe, de)" by blast
  with tr r show ?thesis
    by (intro exI [of _ rounds] exI [of _ "(fe, pe, de)"]) simp
qed

lemma poll_loop_returns:
  assumes "\<forall>h. t0 \<le> length h \<longrightarrow> \<not> is_alive c h Downloader"
  shows "0 < n \<Longrightarrow> t0 < n + length h \<Longrightarrow> poll_loop n c h \<noteq> None"
proof (induction n arbitrary: h)
  case 0
  then show ?case by simp
next
  case (Suc n)
  define fa where "fa = is_alive c h Feeder"
  define h2 where "h2 = h @ IsAlive Feeder fa # (if fa then [] else [SignalSet ''feeder_exited'' True])"
  define pa where "pa = is_alive c h2 Parser"
  define h4 where "h4 = h2 @ IsAlive Parser pa # (if pa then [] else [SignalSet ''parser_exited'' True])"
  define da where "da = is_alive c h4 Downloader"
  define h5 where "h5 = h4 @ [IsAlive Downloader da]"
  have step: "poll_loop (Suc n) c h = (if \<not> da then Some h5 else poll_loop n c (h5 @ [PollSleep 1]))"
    by (simp add: Let_def fa_def h2_def pa_def h4_def da_def h5_def)
  have len: "length h + 2 \<le> length h4" "length h5 = length h4 + 1"
    by (simp_all add: h5_def h4_def h2_def)
  show ?case
  proof (cases da)
    case False
    with step show ?thesis by simp
  next
    case True
    with assms have "length h4 < t0" unfolding da_def by (meson not_le)
    with Suc.prems len have "0 < n" "t0 < n + length (h5 @ [PollSleep 1])" by simp_all
    from Suc.IH [OF this] step True show ?thesis by simp
  qed
qed

text \<open>While the Downloader is alive the poll goes on.\<close>

lemma poll_loop_forever:
  assumes "\<forall>h. is_alive c h Downloader"
  shows "poll_loop n c h = None"
  using assms by (induction n arbitrary: h) (simp_all add: Let_def)

lemma poll_round_events: "\<forall>e\<in>set (poll_round r). is_poll_event e"
  by (cases r) auto

lemma final_clearing_events: "\<forall>e\<in>set (final_clearing cl). \<not> is_poll_event e"
  by (cases cl) auto

lemma last_round_ends:
  assumes "rounds \<noteq> []" "\<not> downloader_alive (last rounds)"
  shows "\<exists>x. concat (map poll_round rounds) = x @ [IsAlive Downloader False] \<and>
           (\<forall>e\<in>set x. is_poll_event e)"
proof -
  from assms(1) obtain rs r where rounds: "rounds = rs @ [r]" by (meson rev_exhaust)
  obtain fa pa da where r: "r = (fa, pa, da)" by (cases r)
  with assms(2) rounds have da: "\<not> da" by simp
  let ?x = "concat (map poll_round rs) @
      IsAlive Feeder fa # (if fa then [] else [SignalSet ''feeder_exited'' True]) @
      IsAlive Parser pa # (if pa then [] else [SignalSet ''parser_exited'' True])"
  have "concat (map poll_round rounds) = ?x @ [IsAlive Downloader False]"
    using rounds r da by simp
  moreover have "\<forall>e\<in>set ?x. is_poll_event e"
    using poll_round_events by auto
  ultimately show ?thesis by blast
qed

text \<open>Every test recorded by the crawl carries the answer of the pool it asks.\<close>

lemma crawl_faithful_append:
  "crawl_faithful c h (a @ b) \<longleftrightarrow> crawl_faithful c h a \<and> crawl_faithful c (h @ a) b"
  by (induction a arbitrary: h) auto

lemma crawl_faithful_split:
  "crawl_faithful c h new \<Longrightarrow> new = pre @ e # post \<Longrightarrow> crawl_answered c (h @ pre) e"
  by (simp add: crawl_faithful_append)

lemma poll_loop_log:
  "poll_loop n c h = Some h' \<Longrightarrow> crawl_faithful c [] h \<Longrightarrow> crawl_faithful c [] h'"
proof (induction n arbitrary: h)
  case 0
  then show ?case by simp
next
  case (Suc n)
  define fa where "fa = is_alive c h Feeder"
  define h2 where "h2 = h @ IsAlive Feeder fa # (if fa then [] else [SignalSet ''feeder_exited'' True])"
  define pa where "pa = is_alive c h2 Parser"
  define h4 where "h4 = h2 @ IsAlive Parser pa # (if pa then [] else [SignalSet ''parser_exited'' True])"
  define da where "da = is_alive c h4 Downloader"
  define h5 where "h5 = h4 @ [IsAlive Downloader da]"
  have step: "poll_loop (Suc n) c h = (if \<not> da then Some h5 else poll_loop n c (h5 @ [PollSleep 1]))"
    by (simp add: Let_def fa_def h2_def pa_def h4_def da_def h5_def)
  have f2: "crawl_faithful c [] h2"
    using Suc.prems(2) by (simp add: h2_def crawl_faithful_append fa_def)
  then have f4: "crawl_faithful c [] h4"
    by (simp add: h4_def crawl_faithful_append pa_def)
  then have f5: "crawl_faithful c [] h5"
    by (simp add: h5_def crawl_faithful_append da_def)
  show ?case
  proof (cases da)
    case False
    with step Suc.prems(1) f5 show ?thesis by simp
  next
    case True
    with step Suc.prems(1) have "poll_loop n c (h5 @ [PollSleep 1]) = Some h'" by simp
    moreover from f5 have "crawl_faithful c [] (h5 @ [PollSleep 1])"
      by (simp add: crawl_faithful_append)
    ultimately show ?thesis by (rule Suc.IH)
  qed
qed

lemma clear_buffers_log:
  assumes "crawl_faithful c [] h"
  shows "crawl_faithful c [] (clear_buffers c h)"
proof -
  define fe where "fe = in_queue_empty c h Feeder"
  define h2 where "h2 = h @ InQueueEmpty Feeder fe # (if fe then [] else [ClearBuffer Feeder None])"
  define pe where "pe = in_queue_empty c h2 Parser"
  define h4 where "h4 = h2 @ InQueueEmpty Parser pe # (if pe then [] else [ClearBuffer Parser None])"
  define de where "de = in_queue_empty c h4 Downloader"
  have cb: "clear_buffers c h =
      h4 @ InQueueEmpty Downloader de # (if de then [] else [ClearBuffer Downloader (Some True)])"
    by (simp add: clear_buffers_def Let_def fe_def h2_def pe_def h4_def de_def)
  have f2: "crawl_faithful c [] h2"
    using assms by (simp add: h2_def crawl_faithful_append fe_def)
  then have f4: "crawl_faithful c [] h4"
    by (simp add: h4_def crawl_faithful_append pe_def)
  then show ?thesis
    unfolding cb by (simp add: crawl_faithful_append de_def)
qed

lemma crawl_log:
  assumes "crawl fuel c fk pk dk = Some tr"
  shows "crawl_faithful c [] tr"
proof -
  from assms obtain h where p: "poll_loop fuel c (start_pools c fk pk dk) = Some h"
    and tr: "tr = clear_buffers c h @ [CrawlLog Crawl_Done]"
    by (auto simp: crawl_def split: option.splits)
  have "crawl_faithful c [] (start_pools c fk pk dk)"
    by (simp add: start_pools_def)
  from clear_buffers_log [OF poll_loop_log [OF p this]] tr show ?thesis
    by (simp add: crawl_faithful_append)
qed

lemma crawl_answers:
  assumes "crawl fuel c fk pk dk = Some tr" and "tr = pre @ e # post"
  shows "crawl_answered c pre e"
  using crawl_faithful_split [of c "[]" tr pre e post] crawl_log [OF assms(1)] assms(2)
  by simp

text \<open>No queue is cleared without its test.\<close>

lemma test_precedes_clear_append:
  assumes "test_precedes_clear xs" and "test_precedes_clear ys"
  shows "test_precedes_clear (xs @ ys)"
  unfolding test_precedes_clear_def
proof (intro allI impI)
  fix pre p a post
  assume "xs @ ys = pre @ ClearBuffer p a # post"
  then consider us where "xs = pre @ us" "us @ ys = ClearBuffer p a # post"
    | us where "xs @ us = pre" "ys = us @ ClearBuffer p a # post"
    by (auto simp: append_eq_append_conv2)
  then show "\<exists>pre'. pre = pre' @ [InQueueEmpty p False]"
  proof cases
    case 1
    show ?thesis
    proof (cases us)
      case Nil
      with 1 have "ys = [] @ ClearBuffer p a # post" by simp
      with assms(2) have "\<exists>pre'. [] = pre' @ [InQueueEmpty p False]"
        unfolding test_precedes_clear_def by blast
      then show ?thesis by simp
    next
      case (Cons u us')
      with 1 have "xs = pre @ ClearBuffer p a # us'" by simp
      with assms(1) show ?thesis unfolding test_precedes_clear_def by blast
    qed
  next
    case 2
    with assms(2) obtain pre' where "us = pre' @ [InQueueEmpty p False]"
      unfolding test_precedes_clear_def by blast
    with 2(1) have "pre = (xs @ pre') @ [InQueueEmpty p False]" by simp
    then show ?thesis by blast
  qed
qed

lemma test_precedes_clear_none:
  assumes "\<forall>e\<in>set xs. \<forall>p a. e \<noteq> ClearBuffer p a"
  shows "test_precedes_clear xs"
  unfolding test_precedes_clear_def using assms by auto

lemma test_precedes_clear_pair:
  "test_precedes_clear [InQueueEmpty p False, ClearBuffer p a]"
  unfolding test_precedes_clear_def
  by (auto simp: Cons_eq_append_conv)

lemma final_clearing_tested: "test_precedes_clear (final_clearing cl)"
proof -
  obtain fe pe de where cl: "cl = (fe, pe, de)" by (cases cl)
  have one: "test_precedes_clear (InQueueEmpty p b # (if b then [] else [ClearBuffer p a]))"
    for p b a
  proof (cases b)
    case True
    then show ?thesis by (simp add: test_precedes_clear_none)
  next
    case False
    then show ?thesis by (simp add: test_precedes_clear_pair)
  qed
  have "final_clearing cl =
      (InQueueEmpty Feeder fe # (if fe then [] else [ClearBuffer Feeder None])) @
      (InQueueEmpty Parser pe # (if pe then [] else [ClearBuffer Parser None])) @
      (InQueueEmpty Downloader de # (if de then [] else [ClearBuffer Downloader (Some True)]))"
    by (simp add: cl)
  then show ?thesis
    by (simp only: test_precedes_clear_append one)
qed

lemma crawl_tested:
  assumes "crawl fuel c fk pk dk = Some tr"
  shows "test_precedes_clear tr"
proof -
  from crawl_shape [OF assms] obtain rounds cl where
    tr: "tr = start_pools c fk pk dk @ concat (map poll_round rounds) @
       final_clearing cl @ [CrawlLog Crawl_Done]"
    by blast
  have "test_precedes_clear (start_pools c fk pk dk)"
    by (rule test_precedes_clear_none) (simp add: start_pools_def)
  moreover have "\<forall>e\<in>set (concat (map poll_round rounds)). \<forall>p a. e \<noteq> ClearBuffer p a"
  proof (intro ballI allI notI)
    fix e p a
    assume "e \<in> set (concat (map poll_round rounds))" and e: "e = ClearBuffer p a"
    then obtain r where "e \<in> set (poll_round r)" by auto
    with poll_round_events [of r] have "is_poll_event e" by blast
    with e show False by simp
  qed
  then have "test_precedes_clear (concat (map poll_round rounds))"
    by (rule test_precedes_clear_none)
  moreover have "test_precedes_clear [CrawlLog Crawl_Done]"
    by (rule test_precedes_clear_none) simp
  ultimately show ?thesis
    unfolding tr by (intro test_precedes_clear_append final_clearing_tested)
qed

text \<open>
  Claim C6: every crawl that returns has made its calls in this order: the reset of the
  signal registry; the start of the Feeder, then of the Parser, then of the Downloader
  pool (each after its log line, with the keyword arguments given or none); then one or
  more rounds of the liveness poll, each round setting \<^verbatim>\<open>"feeder_exited"\<close> when
  the Feeder is not alive and \<^verbatim>\<open>"parser_exited"\<close> when the Parser is not alive.
  The Downloader is alive in every round but the last and not alive in the last: the
  loop is left exactly at the first round that finds the Downloader dead, and no poll
  event follows. Every liveness test of the history records what \<^verbatim>\<open>is_alive\<close> of
  that pool answers at that point of the crawl, so the rounds are those the pools
  dictate. The crawl does return, given enough rounds, when the Downloader is dead from
  some time on, and it never returns while the Downloader stays alive.
\<close>

theorem crawl_order:
  "(crawl fuel c fk pk dk = Some tr \<longrightarrow>
      (\<exists>rounds rest.
         tr = [SignalReset, CrawlLog Start_Crawling,
               CrawlLog (Starting_Feeder (thread_num c Feeder)), PoolStart Feeder (or_empty fk),
               CrawlLog (Starting_Parser (thread_num c Parser)), PoolStart Parser (or_empty pk),
               CrawlLog (Starting_Downloader (thread_num c Downloader)),
               PoolStart Downloader (or_empty dk)] @
              concat (map poll_round rounds) @ rest \<and>
         rounds \<noteq> [] \<and> (\<forall>r\<in>set (butlast rounds). downloader_alive r) \<and>
         \<not> downloader_alive (last rounds) \<and> (\<forall>e\<in>set rest. \<not> is_poll_event e)) \<and>
      (\<forall>pre p b post. tr = pre @ IsAlive p b # post \<longrightarrow> b = is_alive c pre p)) \<and>
   ((\<forall>h. t0 \<le> length h \<longrightarrow> \<not> is_alive c h Downloader) \<longrightarrow>
      (\<exists>tr. crawl (Suc t0) c fk pk dk = Some tr)) \<and>
   ((\<forall>h. is_alive c h Downloader) \<longrightarrow> crawl fuel c fk pk dk = None)"
proof (intro conjI impI)
  assume "crawl fuel c fk pk dk = Some tr"
  from crawl_shape [OF this] obtain rounds cl where
    "tr = start_pools c fk pk dk @ concat (map poll_round rounds) @
       final_clearing cl @ [CrawlLog Crawl_Done]" "rounds \<noteq> []"
    "\<forall>r\<in>set (butlast rounds). downloader_alive r" "\<not> downloader_alive (last rounds)"
    by blast
  then show "\<exists>rounds rest.
         tr = [SignalReset, CrawlLog Start_Crawling,
               CrawlLog (Starting_Feeder (thread_num c Feeder)), PoolStart Feeder (or_empty fk),
               CrawlLog (Starting_Parser (thread_num c Parser)), PoolStart Parser (or_empty pk),
               CrawlLog (Starting_Downloader (thread_num c Downloader)),
               PoolStart Downloader (or_empty dk)] @
              concat (map poll_round rounds) @ rest \<and>
         rounds \<noteq> [] \<and> (\<forall>r\<in>set (butlast rounds). downloader_alive r) \<and>
         \<not> downloader_alive (last rounds) \<and> (\<forall>e\<in>set rest. \<not> is_poll_event e)"
    using final_clearing_events [of cl]
    by (intro exI [of _ rounds] exI [of _ "final_clearing cl @ [CrawlLog Crawl_Done]"])
       (simp add: start_pools_def)
next
  assume run: "crawl fuel c fk pk dk = Some tr"
  show "\<forall>pre p b post. tr = pre @ IsAlive p b # post \<longrightarrow> b = is_alive c pre p"
  proof (intro allI impI)
    fix pre p b post
    assume "tr = pre @ IsAlive p b # post"
    from crawl_answers [OF run this] show "b = is_alive c pre p" by simp
  qed
next
  assume a: "\<forall>h. t0 \<le> length h \<longrightarrow> \<not> is_alive c h Downloader"
  have "poll_loop (Suc t0) c (start_pools c fk pk dk) \<noteq> None"
    by (rule poll_loop_returns [OF a]) simp_all
  then show "\<exists>tr. crawl (Suc t0) c fk pk dk = Some tr"
    by (auto simp: crawl_def)
next
  assume "\<forall>h. is_alive c h Downloader"
  from poll_loop_forever [OF this] show "crawl fuel c fk pk dk = None"
    by (simp add: crawl_def)
qed

text \<open>
  Claim C7: after the poll loop is left (its last event is the liveness test of the
  Downloader, and the Downloader is not alive at that point), the crawl tests the three
  input queues in turn and clears each one that is not empty: the Feeder's and the
  Parser's by \<^verbatim>\<open>clear_buffer()\<close>, the soft drain, the Downloader's by
  \<^verbatim>\<open>clear_buffer(True)\<close>, the forced discard; an empty queue is left as it is, the
  Downloader's included. Every emptiness test of the history records what
  \<^verbatim>\<open>in_queue.empty()\<close> of that pool answers at that point of the crawl, so a
  queue is cleared exactly when its pool reports it not empty. These are the only calls
  of \<^verbatim>\<open>clear_buffer\<close> of the crawl, and the forced discard is used for the
  Downloader only. In every case the Downloader's queue ends clear: it was found empty
  or it was cleared by forced discard.
\<close>

theorem crawl_clearing:
  "crawl fuel c fk pk dk = Some tr \<longrightarrow>
     (\<exists>pre fe pe de.
        tr = pre @ [IsAlive Downloader False] @ final_clearing (fe, pe, de) @ [CrawlLog Crawl_Done] \<and>
        \<not> is_alive c pre Downloader \<and>
        (\<forall>e\<in>set pre. \<forall>p a b. e \<noteq> ClearBuffer p a \<and> e \<noteq> InQueueEmpty p b)) \<and>
     (\<forall>pre p b post. tr = pre @ InQueueEmpty p b # post \<longrightarrow> b = in_queue_empty c pre p) \<and>
     (\<forall>pre p a post. tr = pre @ ClearBuffer p a # post \<longrightarrow>
        (\<exists>pre'. pre = pre' @ [InQueueEmpty p False] \<and> \<not> in_queue_empty c pre' p)) \<and>
     (\<forall>p a. ClearBuffer p a \<in> set tr \<longrightarrow> discard_remaining a = (p = Downloader)) \<and>
     (InQueueEmpty Downloader True \<in> set tr \<or> ClearBuffer Downloader (Some True) \<in> set tr)"
proof
  assume run: "crawl fuel c fk pk dk = Some tr"
  from crawl_shape [OF this] obtain rounds cl where
    tr: "tr = start_pools c fk pk dk @ concat (map poll_round rounds) @
       final_clearing cl @ [CrawlLog Crawl_Done]" and "rounds \<noteq> []"
    "\<not> downloader_alive (last rounds)"
    by blast
  from last_round_ends [OF this(2,3)] obtain x where
    x: "concat (map poll_round rounds) = x @ [IsAlive Downloader False]"
      "\<forall>e\<in>set x. is_poll_event e" by blast
  obtain fe pe de where cl: "cl = (fe, pe, de)" by (cases cl)
  let ?pre = "start_pools c fk pk dk @ x"
  have pre: "\<forall>e\<in>set ?pre. \<forall>p a b. e \<noteq> ClearBuffer p a \<and> e \<noteq> InQueueEmpty p b"
    using x(2) by (auto simp: start_pools_def)
  have split: "tr = ?pre @ IsAlive Downloader False # final_clearing (fe, pe, de) @ [CrawlLog Crawl_Done]"
    using tr x(1) cl by simp
  from crawl_answers [OF run split] have dead: "\<not> is_alive c ?pre Downloader" by simp
  have 1: "\<exists>pre fe pe de.
        tr = pre @ [IsAlive Downloader False] @ final_clearing (fe, pe, de) @ [CrawlLog Crawl_Done] \<and>
        \<not> is_alive c pre Downloader \<and>
        (\<forall>e\<in>set pre. \<forall>p a b. e \<noteq> ClearBuffer p a \<and> e \<noteq> InQueueEmpty p b)"
    using split dead pre
    by (intro exI [of _ ?pre] exI [of _ fe] exI [of _ pe] exI [of _ de]) simp
  have 2: "discard_remaining a = (p = Downloader)" if "ClearBuffer p a \<in> set tr" for p a
  proof -
    from that tr x pre cl have "ClearBuffer p a \<in> set (final_clearing (fe, pe, de))"
      by auto
    then show ?thesis by (auto split: if_splits)
  qed
  have 3: "InQueueEmpty Downloader True \<in> set tr \<or> ClearBuffer Downloader (Some True) \<in> set tr"
    unfolding tr cl by (cases de) simp_all
  have 4: "b = in_queue_empty c pre p" if "tr = pre @ InQueueEmpty p b # post" for pre p b post
    using crawl_answers [OF run that] by simp
  have 5: "\<exists>pre'. pre = pre' @ [InQueueEmpty p False] \<and> \<not> in_queue_empty c pre' p"
    if s: "tr = pre @ ClearBuffer p a # post" for pre p a post
  proof -
    from crawl_tested [OF run] s have "\<exists>pre'. pre = pre' @ [InQueueEmpty p False]"
      unfolding test_precedes_clear_def by blast
    then obtain pre' where p': "pre = pre' @ [InQueueEmpty p False]" by blast
    with s have "tr = pre' @ InQueueEmpty p False # ClearBuffer p a # post" by simp
    from 4 [OF this] p' show ?thesis by blast
  qed
  from 1 2 3 4 5 show "(\<exists>pre fe pe de.
        tr = pre @ [IsAlive Downloader False] @ final_clearing (fe, pe, de) @ [CrawlLog Crawl_Done] \<and>
        \<not> is_alive c pre Downloader \<and>
        (\<forall>e\<in>set pre. \<forall>p a b. e \<noteq> ClearBuffer p a \<and> e \<noteq> InQueueEmpty p b)) \<and>
     (\<forall>pre p b post. tr = pre @ InQueueEmpty p b # post \<longrightarrow> b = in_queue_empty c pre p) \<and>
     (\<forall>pre p a post. tr = pre @ ClearBuffer p a # post \<longrightarrow>
        (\<exists>pre'. pre = pre' @ [InQueueEmpty p False] \<and> \<not> in_queue_empty c pre' p)) \<and>
     (\<forall>p a. ClearBuffer p a \<in> set tr \<longrightarrow> discard_remaining a = (p = Downloader)) \<and>
     (InQueueEmpty Downloader True \<in> set tr \<or> ClearBuffer Downloader (Some True) \<in> set tr)"
    by blast
qed

text \<open>The run of the scenario: three rounds, then the clearing.\<close>

lemma crawl_scenario_run:
  "crawl 3 crawl_scenario None None None =
     Some [SignalReset, CrawlLog Start_Crawling, CrawlLog (Starting_Feeder 1),
       PoolStart Feeder [], CrawlLog (Starting_Parser 1), PoolStart Parser [],
       CrawlLog (Starting_Downloader 1), PoolStart Downloader [],
       IsAlive Feeder True, IsAlive Parser True, IsAlive Downloader True, PollSleep 1,
       IsAlive Feeder False, SignalSet ''feeder_exited'' True,
       IsAlive Parser True, IsAlive Downloader True, PollSleep 1,
       IsAlive Feeder False, SignalSet ''feeder_exited'' True,
       IsAlive Parser False, SignalSet ''parser_exited'' True,
       IsAlive Downloader False,
       InQueueEmpty Feeder True,
       InQueueEmpty Parser False, ClearBuffer Parser None,
       InQueueEmpty Downloader False, ClearBuffer Downloader (Some True),
       CrawlLog Crawl_Done]"
  by (simp add: crawl_def start_pools_def clear_buffers_def crawl_scenario_def Let_def
      numeral_3_eq_3)

text \<open>
  In the scenario the poll makes three rounds. The theorem gives the order of the calls
  and, at the three tests of the Downloader, what the pool answers there: alive, alive,
  dead. With the Downloader dead from the eighteenth event on, nineteen rounds are
  enough for the crawl to return.
\<close>

theorem crawl_order_witness:
  "crawl 3 crawl_scenario None None None =
     Some ([SignalReset, CrawlLog Start_Crawling, CrawlLog (Starting_Feeder 1),
       PoolStart Feeder [], CrawlLog (Starting_Parser 1), PoolStart Parser [],
       CrawlLog (Starting_Downloader 1), PoolStart Downloader []] @
       concat (map poll_round [(True, True, True), (False, True, True), (False, False, False)]) @
       [InQueueEmpty Feeder True, InQueueEmpty Parser False, ClearBuffer Parser None,
        InQueueEmpty Downloader False, ClearBuffer Downloader (Some True),
        CrawlLog Crawl_Done]) \<and>
   (\<exists>rounds rest.
      crawl 3 crawl_scenario None None None =
        Some ([SignalReset, CrawlLog Start_Crawling, CrawlLog (Starting_Feeder 1),
          PoolStart Feeder [], CrawlLog (Starting_Parser 1), PoolStart Parser [],
          CrawlLog (Starting_Downloader 1), PoolStart Downloader []] @
          concat (map poll_round rounds) @ rest) \<and>
      rounds \<noteq> [] \<and> filter is_poll_event rest = [] \<and> \<not> downloader_alive (last rounds)) \<and>
   is_alive crawl_scenario
     [SignalReset, CrawlLog Start_Crawling, CrawlLog (Starting_Feeder 1),
      PoolStart Feeder [], CrawlLog (Starting_Parser 1), PoolStart Parser [],
      CrawlLog (Starting_Downloader 1), PoolStart Downloader [],
      IsAlive Feeder True, IsAlive Parser True] Downloader \<and>
   \<not> is_alive crawl_scenario
     [SignalReset, CrawlLog Start_Crawling, CrawlLog (Starting_Feeder 1),
      PoolStart Feeder [], CrawlLog (Starting_Parser 1), PoolStart Parser [],
      CrawlLog (Starting_Downloader 1), PoolStart Downloader [],
      IsAlive Feeder True, IsAlive Parser True, IsAlive Downloader True, PollSleep 1,
      IsAlive Feeder False, SignalSet ''feeder_exited'' True,
      IsAlive Parser True, IsAlive Downloader True, PollSleep 1,
      IsAlive Feeder False, SignalSet ''feeder_exited'' True,
      IsAlive Parser False, SignalSet ''parser_exited'' True] Downloader \<and>
   (\<exists>tr. crawl 19 crawl_scenario None None None = Some tr)"
proof -
  have dead: "\<forall>h. 18 \<le> length h \<longrightarrow> \<not> is_alive crawl_scenario h Downloader"
    by (simp add: crawl_scenario_def)
  have one: "thread_num crawl_scenario p = 1" for p by (simp add: crawl_scenario_def)
  note T = crawl_order [of 3 crawl_scenario None None None _ 18]
  note R = T [THEN conjunct1, THEN mp, OF crawl_scenario_run]
  have explicit: "crawl 3 crawl_scenario None None None =
     Some ([SignalReset, CrawlLog Start_Crawling, CrawlLog (Starting_Feeder 1),
       PoolStart Feeder [], CrawlLog (Starting_Parser 1), PoolStart Parser [],
       CrawlLog (Starting_Downloader 1), PoolStart Downloader []] @
       concat (map poll_round [(True, True, True), (False, True, True), (False, False, False)]) @
       [InQueueEmpty Feeder True, InQueueEmpty Parser False, ClearBuffer Parser None,
        InQueueEmpty Downloader False, ClearBuffer Downloader (Some True),
        CrawlLog Crawl_Done])"
    unfolding crawl_scenario_run by simp
  from R [THEN conjunct1] obtain rounds rest where
    "crawl 3 crawl_scenario None None None =
        Some ([SignalReset, CrawlLog Start_Crawling, CrawlLog (Starting_Feeder 1),
          PoolStart Feeder [], CrawlLog (Starting_Parser 1), PoolStart Parser [],
          CrawlLog (Starting_Downloader 1), PoolStart Downloader []] @
          concat (map poll_round rounds) @ rest)"
    "rounds \<noteq> []" "\<forall>e\<in>set rest. \<not> is_poll_event e" "\<not> downloader_alive (last rounds)"
    unfolding crawl_scenario_run one by auto
  moreover from this(3) have "filter is_poll_event rest = []" by (simp add: filter_empty_conv)
  ultimately have shape: "\<exists>rounds rest.
      crawl 3 crawl_scenario None None None =
        Some ([SignalReset, CrawlLog Start_Crawling, CrawlLog (Starting_Feeder 1),
          PoolStart Feeder [], CrawlLog (Starting_Parser 1), PoolStart Parser [],
          CrawlLog (Starting_Downloader 1), PoolStart Downloader []] @
          concat (map poll_round rounds) @ rest) \<and>
      rounds \<noteq> [] \<and> filter is_poll_event rest = [] \<and> \<not> downloader_alive (last rounds)"
    by blast
  have first: "True = is_alive crawl_scenario
     [SignalReset, CrawlLog Start_Crawling, CrawlLog (Starting_Feeder 1),
      PoolStart Feeder [], CrawlLog (Starting_Parser 1), PoolStart Parser [],
      CrawlLog (Starting_Downloader 1), PoolStart Downloader [],
      IsAlive Feeder True, IsAlive Parser True] Downloader"
    by (rule R [THEN conjunct2, THEN spec, THEN spec, THEN spec, THEN spec, THEN mp]) simp
  have last: "False = is_alive crawl_scenario
     [SignalReset, CrawlLog Start_Crawling, CrawlLog (Starting_Feeder 1),
      PoolStart Feeder [], CrawlLog (Starting_Parser 1), PoolStart Parser [],
      CrawlLog (Starting_Downloader 1), PoolStart Downloader [],
      IsAlive Feeder True, IsAlive Parser True, IsAlive Downloader True, PollSleep 1,
      IsAlive Feeder False, SignalSet ''feeder_exited'' True,
      IsAlive Parser True, IsAlive Downloader True, PollSleep 1,
      IsAlive Feeder False, SignalSet ''feeder_exited'' True,
      IsAlive Parser False, SignalSet ''parser_exited'' True] Downloader"
    by (rule R [THEN conjunct2, THEN spec, THEN spec, THEN spec, THEN spec, THEN mp]) simp
  from T [THEN conjunct2, THEN conjunct1, THEN mp, OF dead]
  have "\<exists>tr. crawl 19 crawl_scenario None None None = Some tr" by simp
  with explicit shape first last show ?thesis by simp
qed

text \<open>
  In the same run the Feeder's queue is found empty and left alone, the Parser's and the
  Downloader's are found not empty and cleared, the first by the soft drain and the
  second by the forced discard; the theorem gives, for each clearing, the test before
  it and what the pool answers there.
\<close>

theorem crawl_clearing_witness:
  "(\<exists>pre. crawl 3 crawl_scenario None None None =
      Some (pre @ [IsAlive Downloader False] @
        final_clearing (True, False, False) @ [CrawlLog Crawl_Done])) \<and>
   in_queue_empty crawl_scenario
     [SignalReset, CrawlLog Start_Crawling, CrawlLog (Starting_Feeder 1),
      PoolStart Feeder [], CrawlLog (Starting_Parser 1), PoolStart Parser [],
      CrawlLog (Starting_Downloader 1), PoolStart Downloader [],
      IsAlive Feeder True, IsAlive Parser True, IsAlive Downloader True, PollSleep 1,
      IsAlive Feeder False, SignalSet ''feeder_exited'' True,
      IsAlive Parser True, IsAlive Downloader True, PollSleep 1,
      IsAlive Feeder False, SignalSet ''feeder_exited'' True,
      IsAlive Parser False, SignalSet ''parser_exited'' True,
      IsAlive Downloader False] Feeder \<and>
   (\<exists>pre'. [SignalReset, CrawlLog Start_Crawling, CrawlLog (Starting_Feeder 1),
      PoolStart Feeder [], CrawlLog (Starting_Parser 1), PoolStart Parser [],
      CrawlLog (Starting_Downloader 1), PoolStart Downloader [],
      IsAlive Feeder True, IsAlive Parser True, IsAlive Downloader True, PollSleep 1,
      IsAlive Feeder False, SignalSet ''feeder_exited'' True,
      IsAlive Parser True, IsAlive Downloader True, PollSleep 1,
      IsAlive Feeder False, SignalSet ''feeder_exited'' True,
      IsAlive Parser False, SignalSet ''parser_exited'' True,
      IsAlive Downloader False,
      InQueueEmpty Feeder True,
      InQueueEmpty Parser False, ClearBuffer Parser None,
      InQueueEmpty Downloader False] = pre' @ [InQueueEmpty Downloader False] \<and>
      \<not> in_queue_empty crawl_scenario pre' Downloader) \<and>
   discard_remaining None = (Parser = Downloader) \<and>
   discard_remaining (Some True) = (Downloader = Downloader)"
proof -
  note T = crawl_clearing [of 3 crawl_scenario None None None, THEN mp, OF crawl_scenario_run]
  have "discard_remaining None = (Parser = Downloader)"
    by (rule T [THEN conjunct2, THEN conjunct2, THEN conjunct2, THEN conjunct1, rule_format]) simp
  moreover have "discard_remaining (Some True) = (Downloader = Downloader)"
    by (rule T [THEN conjunct2, THEN conjunct2, THEN conjunct2, THEN conjunct1, rule_format]) simp
  moreover have "\<exists>pre. crawl 3 crawl_scenario None None None =
      Some (pre @ [IsAlive Downloader False] @
        final_clearing (True, False, False) @ [CrawlLog Crawl_Done])"
    unfolding crawl_scenario_run
    by (rule exI [of _ "[SignalReset, CrawlLog Start_Crawling, CrawlLog (Starting_Feeder 1),
       PoolStart Feeder [], CrawlLog (Starting_Parser 1), PoolStart Parser [],
       CrawlLog (Starting_Downloader 1), PoolStart Downloader [],
       IsAlive Feeder True, IsAlive Parser True, IsAlive Downloader True, PollSleep 1,
       IsAlive Feeder False, SignalSet ''feeder_exited'' True,
       IsAlive Parser True, IsAlive Downloader True, PollSleep 1,
       IsAlive Feeder False, SignalSet ''feeder_exited'' True,
       IsAlive Parser False, SignalSet ''parser_exited'' True]"]) simp
  moreover have "True = in_queue_empty crawl_scenario
     [SignalReset, CrawlLog Start_Crawling, CrawlLog (Starting_Feeder 1),
      PoolStart Feeder [], CrawlLog (Starting_Parser 1), PoolStart Parser [],
      CrawlLog (Starting_Downloader 1), PoolStart Downloader [],
      IsAlive Feeder True, IsAlive Parser True, IsAlive Downloader True, PollSleep 1,
      IsAlive Feeder False, SignalSet ''feeder_exited'' True,
      IsAlive Parser True, IsAlive Downloader True, PollSleep 1,
      IsAlive Feeder False, SignalSet ''feeder_exited'' True,
      IsAlive Parser False, SignalSet ''parser_exited'' True,
      IsAlive Downloader False] Feeder"
    by (rule T [THEN conjunct2, THEN conjunct1, THEN spec, THEN spec, THEN spec, THEN spec,
        THEN mp]) simp
  moreover have "\<exists>pre'. [SignalReset, CrawlLog Start_Crawling, CrawlLog (Starting_Feeder 1),
      PoolStart Feeder [], CrawlLog (Starting_Parser 1), PoolStart Parser [],
      CrawlLog (Starting_Downloader 1), PoolStart Downloader [],
      IsAlive Feeder True, IsAlive Parser True, IsAlive Downloader True, PollSleep 1,
      IsAlive Feeder False, SignalSet ''feeder_exited'' True,
      IsAlive Parser True, IsAlive Downloader True, PollSleep 1,
      IsAlive Feeder False, SignalSet ''feeder_exited'' True,
      IsAlive Parser False, SignalSet ''parser_exited'' True,
      IsAlive Downloader False,
      InQueueEmpty Feeder True,
      InQueueEmpty Parser False, ClearBuffer Parser None,
      InQueueEmpty Downloader False] = pre' @ [InQueueEmpty Downloader False] \<and>
      \<not> in_queue_empty crawl_scenario pre' Downloader"
    by (rule T [THEN conjunct2, THEN conjunct2, THEN conjunct1, THEN spec, THEN spec, THEN spec,
        THEN spec, THEN mp]) simp
  ultimately show ?thesis by simp
qed

end
